theory Spec2Isabelle
  imports Complex_Main "HOL-Library.AList"
begin

section \<open>The shared chat log (app/chat\_log.py)\<close>

text \<open>
  Wall-clock readings (\<^verbatim>\<open>time.time()\<close>) are inputs of the model and are taken as
  real numbers; identifiers and counters are Python integers that only ever count up
  from zero and are natural numbers here.
\<close>

record message =
  sender :: string
  content :: string
  timestamp :: real
  message_id :: nat
  message_type :: string
  metadata :: "(string \<times> string) list"

text \<open>
  An \<^verbatim>\<open>asyncio.Queue()\<close> created by \<^verbatim>\<open>subscribe\<close>: unbounded, so \<^verbatim>\<open>put\<close> always
  succeeds at once. \<open>q_items\<close> is everything put into the queue, oldest first;
  \<open>q_closed\<close> is the attribute \<^verbatim>\<open>_closed\<close> that \<^verbatim>\<open>_notify_subscribers\<close> reads with
  \<^verbatim>\<open>getattr(q, "_closed", False)\<close> (absent, hence false, on a fresh queue).
\<close>

record queue =
  q_items :: "message list"
  q_closed :: bool

record log_stats =
  total_messages :: nat
  messages_by_sender :: "string \<rightharpoonup> nat"
  start_time :: real
  bot_responses :: nat
  human_responses :: nat
  moderator_messages :: nat
  silence_breaks :: nat

text \<open>
  The \<^verbatim>\<open>ChatLog\<close> object. \<open>messages\<close> with \<open>maxlen\<close> is the
  \<^verbatim>\<open>deque(maxlen=max_messages)\<close>; \<open>subscribers\<close> is the list of references to queue
  objects, \<open>queues\<close> the store holding the objects themselves and \<open>next_queue\<close> the
  next unused reference.
\<close>

record chat_log =
  messages :: "message list"
  maxlen :: nat
  message_counter :: nat
  subscribers :: "nat list"
  queues :: "nat \<Rightarrow> queue"
  next_queue :: nat
  response_times :: "string \<rightharpoonup> real"
  stats :: log_stats

definition empty_queue :: queue where
  "empty_queue = \<lparr>q_items = [], q_closed = False\<rparr>"

definition init_stats :: "real \<Rightarrow> log_stats" where
  "init_stats now = \<lparr>total_messages = 0, messages_by_sender = Map.empty, start_time = now,
     bot_responses = 0, human_responses = 0, moderator_messages = 0, silence_breaks = 0\<rparr>"

definition init_chat_log :: "nat \<Rightarrow> real \<Rightarrow> chat_log" where
  "init_chat_log max_messages now =
     \<lparr>messages = [], maxlen = max_messages, message_counter = 0, subscribers = [],
      queues = (\<lambda>_. empty_queue), next_queue = 0, response_times = Map.empty,
      stats = init_stats now\<rparr>"

text \<open>\<^verbatim>\<open>deque.append\<close> on a bounded deque: the item goes in on the right, and when the
  deque is then longer than \<open>maxlen\<close> its leftmost item is dropped.\<close>

definition deque_append :: "nat \<Rightarrow> 'a list \<Rightarrow> 'a \<Rightarrow> 'a list" where
  "deque_append n xs x = (let ys = xs @ [x] in if n < length ys then tl ys else ys)"

definition bot_names :: "string list" where
  "bot_names = [''Socrates'', ''Advocate'', ''Skeptic'', ''Mediator'']"

definition update_stats :: "message list \<Rightarrow> message \<Rightarrow> log_stats \<Rightarrow> log_stats" where
  "update_stats msgs m st =
     (let st1 = st\<lparr>total_messages := total_messages st + 1,
                    messages_by_sender := (messages_by_sender st)(sender m \<mapsto>
                      (case messages_by_sender st (sender m) of None \<Rightarrow> 0 | Some c \<Rightarrow> c) + 1)\<rparr>
      in if sender m \<in> set bot_names then
           (let st2 = st1\<lparr>bot_responses := bot_responses st1 + 1\<rparr>
            in if 1 < length msgs
                  \<and> timestamp m - timestamp (msgs ! (length msgs - 2)) < 10
               then st2\<lparr>silence_breaks := silence_breaks st2 + 1\<rparr> else st2)
         else if sender m = ''Moderator'' then
           st1\<lparr>moderator_messages := moderator_messages st1 + 1\<rparr>
         else st1\<lparr>human_responses := human_responses st1 + 1\<rparr>)"

text \<open>\<^verbatim>\<open>_notify_subscribers\<close>: queues flagged closed leave the subscriber list, every
  remaining queue gets the message.\<close>

fun put_all :: "nat list \<Rightarrow> message \<Rightarrow> (nat \<Rightarrow> queue) \<Rightarrow> (nat \<Rightarrow> queue)" where
  "put_all [] m qs = qs"
| "put_all (q # rest) m qs =
     put_all rest m (qs(q := (qs q)\<lparr>q_items := q_items (qs q) @ [m]\<rparr>))"

definition notify_subscribers :: "message \<Rightarrow> chat_log \<Rightarrow> chat_log" where
  "notify_subscribers m cl =
     (let live = filter (\<lambda>q. \<not> q_closed (queues cl q)) (subscribers cl)
      in cl\<lparr>subscribers := live, queues := put_all live m (queues cl)\<rparr>)"

record add_input =
  in_sender :: string
  in_content :: string
  in_type :: string
  in_metadata :: "(string \<times> string) list"
  in_now :: real

text \<open>
  \<^verbatim>\<open>add_message\<close>, under the log's lock. The broadcast to the web server that follows
  the notification reads the log only, and a failure of it is caught and printed; it is
  left out. The result is the new log and the message returned to the caller.
\<close>

definition add_message :: "add_input \<Rightarrow> chat_log \<Rightarrow> chat_log \<times> message" where
  "add_message i cl =
     (let counter = message_counter cl + 1;
          m = \<lparr>sender = in_sender i, content = in_content i, timestamp = in_now i,
               message_id = counter, message_type = in_type i, metadata = in_metadata i\<rparr>;
          msgs = deque_append (maxlen cl) (messages cl) m;
          cl1 = cl\<lparr>message_counter := counter,
                     response_times := (response_times cl)(in_sender i := None),
                     messages := msgs,
                     stats := update_stats msgs m (stats cl)\<rparr>
      in (notify_subscribers m cl1, m))"

text \<open>\<^verbatim>\<open>subscribe\<close> allocates a fresh queue, appends it to the subscriber list and
  returns it; \<^verbatim>\<open>unsubscribe\<close> removes the first occurrence of the queue, if any.\<close>

definition subscribe :: "chat_log \<Rightarrow> chat_log \<times> nat" where
  "subscribe cl =
     (let q = next_queue cl
      in (cl\<lparr>subscribers := subscribers cl @ [q],
               queues := (queues cl)(q := empty_queue),
               next_queue := q + 1\<rparr>, q))"

definition unsubscribe :: "nat \<Rightarrow> chat_log \<Rightarrow> chat_log" where
  "unsubscribe q cl =
     (if q \<in> set (subscribers cl) then cl\<lparr>subscribers := remove1 q (subscribers cl)\<rparr>
      else cl)"

text \<open>A history of calls on one log, and the messages its \<^verbatim>\<open>add_message\<close> calls
  returned, in call order.\<close>

datatype log_op = Add add_input | Subscribe | Unsubscribe nat

fun apply_op :: "log_op \<Rightarrow> chat_log \<Rightarrow> chat_log \<times> message list" where
  "apply_op (Add i) cl = (let (cl', m) = add_message i cl in (cl', [m]))"
| "apply_op Subscribe cl = (fst (subscribe cl), [])"
| "apply_op (Unsubscribe q) cl = (unsubscribe q cl, [])"

fun run_ops :: "log_op list \<Rightarrow> chat_log \<Rightarrow> chat_log \<times> message list" where
  "run_ops [] cl = (cl, [])"
| "run_ops (op # ops) cl =
     (let (cl1, ms1) = apply_op op cl; (cl2, ms2) = run_ops ops cl1
      in (cl2, ms1 @ ms2))"

text \<open>
  What every log reached through its own methods satisfies: no queue is subscribed twice,
  every subscribed queue has been allocated, and no queue carries the closed flag (no
  method of the log sets it).
\<close>

definition log_inv :: "chat_log \<Rightarrow> bool" where
  "log_inv cl \<longleftrightarrow>
     distinct (subscribers cl) \<and> list_all (\<lambda>q. q < next_queue cl) (subscribers cl)
     \<and> (\<forall>q. \<not> q_closed (queues cl q))"

text \<open>An input of \<^verbatim>\<open>add_message\<close> with the default type and metadata, for examples.\<close>

definition ex_add :: "string \<Rightarrow> string \<Rightarrow> add_input" where
  "ex_add s c = \<lparr>in_sender = s, in_content = c, in_type = ''chat'', in_metadata = [], in_now = 0\<rparr>"

section \<open>Strings as the bot's heuristics use them\<close>

text \<open>
  Strings are lists of ASCII characters. \<open>lower\<close> is \<^verbatim>\<open>str.lower()\<close>, \<open>contains\<close> is
  Python's \<^verbatim>\<open>sub in s\<close>, \<open>is_word_char\<close> the class \<^verbatim>\<open>\w\<close> and \<open>is_space\<close> the characters
  \<^verbatim>\<open>str.split()\<close> and \<^verbatim>\<open>str.strip()\<close> treat as whitespace, all restricted to ASCII.
\<close>

definition upper_letters :: string where
  "upper_letters = ''ABCDEFGHIJKLMNOPQRSTUVWXYZ''"

definition lower_letters :: string where
  "lower_letters = ''abcdefghijklmnopqrstuvwxyz''"

definition lower_char :: "char \<Rightarrow> char" where
  "lower_char c = (case map_of (zip upper_letters lower_letters) c of Some d \<Rightarrow> d | None \<Rightarrow> c)"

definition lower :: "string \<Rightarrow> string" where
  "lower s = map lower_char s"

definition is_word_char :: "char \<Rightarrow> bool" where
  "is_word_char c \<longleftrightarrow> c \<in> set (upper_letters @ lower_letters @ ''0123456789_'')"

definition is_space :: "char \<Rightarrow> bool" where
  "is_space c \<longleftrightarrow>
     c \<in> set [CHR '' '', CHR 0x09, CHR 0x0A, CHR 0x0B, CHR 0x0C, CHR 0x0D,
               CHR 0x1C, CHR 0x1D, CHR 0x1E, CHR 0x1F]"

fun is_prefix :: "string \<Rightarrow> string \<Rightarrow> bool" where
  "is_prefix [] s = True"
| "is_prefix (c # cs) [] = False"
| "is_prefix (c # cs) (d # ds) = (c = d \<and> is_prefix cs ds)"

fun contains :: "string \<Rightarrow> string \<Rightarrow> bool" where
  "contains sub [] = (sub = [])"
| "contains sub (d # ds) = (is_prefix sub (d # ds) \<or> contains sub ds)"

definition any_in :: "string list \<Rightarrow> string \<Rightarrow> bool" where
  "any_in ws s = list_ex (\<lambda>w. contains w s) ws"

text \<open>\<^verbatim>\<open>s.rstrip('s')\<close>, \<^verbatim>\<open>s.replace(a, b)\<close> for single characters, \<^verbatim>\<open>sep.join(xs)\<close>,
  \<^verbatim>\<open>s.strip()\<close> and \<^verbatim>\<open>s.split()\<close>.\<close>

definition rstrip_char :: "char \<Rightarrow> string \<Rightarrow> string" where
  "rstrip_char c s = rev (dropWhile (\<lambda>d. d = c) (rev s))"

definition replace_char :: "char \<Rightarrow> char \<Rightarrow> string \<Rightarrow> string" where
  "replace_char a b s = map (\<lambda>c. if c = a then b else c) s"

fun join :: "string \<Rightarrow> string list \<Rightarrow> string" where
  "join sep [] = []"
| "join sep [x] = x"
| "join sep (x # y # ys) = x @ sep @ join sep (y # ys)"

definition strip :: "string \<Rightarrow> string" where
  "strip s = rev (dropWhile is_space (rev (dropWhile is_space s)))"

fun split_ws :: "string \<Rightarrow> string \<Rightarrow> string list" where
  "split_ws cur [] = (if cur = [] then [] else [cur])"
| "split_ws cur (c # cs) =
     (if is_space c then (if cur = [] then split_ws [] cs else cur # split_ws [] cs)
      else split_ws (cur @ [c]) cs)"

definition split :: "string \<Rightarrow> string list" where
  "split s = split_ws [] s"

text \<open>
  \<^verbatim>\<open>re.search(rf"\b{re.escape(v)}\b", s)\<close>: the literal \<open>v\<close> occurs in \<open>s\<close> at a
  position where both its ends are word boundaries. A boundary lies between a word
  character and a character that is none (or the start or end of the string).
\<close>

definition word_before :: "string \<Rightarrow> nat \<Rightarrow> bool" where
  "word_before s p \<longleftrightarrow> 0 < p \<and> p \<le> length s \<and> is_word_char (s ! (p - 1))"

definition word_after :: "string \<Rightarrow> nat \<Rightarrow> bool" where
  "word_after s p \<longleftrightarrow> p < length s \<and> is_word_char (s ! p)"

definition boundary :: "string \<Rightarrow> nat \<Rightarrow> bool" where
  "boundary s p \<longleftrightarrow> word_before s p \<noteq> word_after s p"

definition search_word :: "string \<Rightarrow> string \<Rightarrow> bool" where
  "search_word v s =
     list_ex (\<lambda>i. is_prefix v (drop i s) \<and> boundary s i \<and> boundary s (i + length v))
       [0 ..< length s + 1]"

text \<open>The last \<open>n\<close> items of a list: the slice \<^verbatim>\<open>xs[-n:]\<close> for positive \<open>n\<close>.\<close>

definition lastn :: "nat \<Rightarrow> 'a list \<Rightarrow> 'a list" where
  "lastn n xs = drop (length xs - n) xs"

section \<open>The autonomous bot (app/bot\_client.py)\<close>

record bot_config =
  name :: string
  model :: string
  provider :: string
  personality :: string
  stance :: string
  max_tokens :: int
  timeout :: int
  check_interval :: int
  min_cooldown :: int
  max_cooldown :: int
  silence_tolerance :: int

text \<open>The configuration \<^verbatim>\<open>BotClient.__init__\<close> builds: the timing fields keep the defaults
  of \<^verbatim>\<open>BotConfig\<close>. (The sampling temperature, a float passed on to the provider, is
  left out.)\<close>

definition make_config :: "string \<Rightarrow> string \<Rightarrow> string \<Rightarrow> string \<Rightarrow> string \<Rightarrow> int \<Rightarrow> bot_config" where
  "make_config nm mdl prov pers st mt =
     \<lparr>name = nm, model = mdl, provider = prov, personality = pers, stance = st,
      max_tokens = mt, timeout = 15, check_interval = 2, min_cooldown = 5,
      max_cooldown = 12, silence_tolerance = 8\<rparr>"

record bot_stats =
  responses_generated :: nat
  autonomous_responses :: nat
  average_response_time :: real
  total_response_time :: real
  errors :: nat
  triggers_detected :: nat
  passes_made :: nat
  bot_silence_breaks :: nat
  conversation_starters :: nat

text \<open>
  The state of a \<^verbatim>\<open>BotClient\<close> that the monitoring loop reads and writes.
  \<open>burning_questions\<close> holds the three questions sampled at construction.
\<close>

record bot_client =
  config :: bot_config
  is_monitoring :: bool
  last_response_time :: real
  total_responses :: nat
  current_cooldown :: real
  burning_questions :: "string list"
  conversation_energy :: real
  last_silence_break :: real
  response_urgency :: real
  missed_opportunities :: int
  bstats :: bot_stats

definition init_bot_stats :: bot_stats where
  "init_bot_stats = \<lparr>responses_generated = 0, autonomous_responses = 0,
     average_response_time = 0, total_response_time = 0, errors = 0, triggers_detected = 0,
     passes_made = 0, bot_silence_breaks = 0, conversation_starters = 0\<rparr>"

definition new_bot_client :: "bot_config \<Rightarrow> string list \<Rightarrow> bot_client" where
  "new_bot_client cfg questions =
     \<lparr>config = cfg, is_monitoring = False, last_response_time = 0, total_responses = 0,
      current_cooldown = real_of_int (min_cooldown cfg), burning_questions = questions,
      conversation_energy = 1, last_silence_break = 0, response_urgency = 0,
      missed_opportunities = 0, bstats = init_bot_stats\<rparr>"

text \<open>\<^verbatim>\<open>start_autonomous_monitoring\<close> sets the flag (and subscribes, and starts the loop).\<close>

definition start_monitoring :: "bot_client \<Rightarrow> bot_client" where
  "start_monitoring b = b\<lparr>is_monitoring := True\<rparr>"

text \<open>
  The other methods that write the state kept here: \<^verbatim>\<open>reset_conversation\<close> resets the
  energy, the urgency and the missed opportunities; \<^verbatim>\<open>update_personality\<close> replaces the
  personality, the stance when one is given and not empty, and the questions, which
  are sampled anew.
\<close>

definition reset_conversation :: "bot_client \<Rightarrow> bot_client" where
  "reset_conversation b =
     b\<lparr>conversation_energy := 1, response_urgency := 0, missed_opportunities := 0\<rparr>"

definition update_personality :: "string \<Rightarrow> string option \<Rightarrow> string list \<Rightarrow> bot_client \<Rightarrow> bot_client" where
  "update_personality pers st questions b =
     b\<lparr>config := (config b)\<lparr>personality := pers,
                    stance := (case st of None \<Rightarrow> stance (config b)
                               | Some x \<Rightarrow> if x = [] then stance (config b) else x)\<rparr>,
       burning_questions := questions\<rparr>"

subsection \<open>Trigger analysis\<close>

record triggers =
  direct_mention :: bool
  stance_challenged :: bool
  question_in_domain :: bool
  topic_shift :: bool
  silence_too_long :: bool
  expertise_needed :: bool
  emotional_trigger :: bool

definition name_variants :: "string \<Rightarrow> string list" where
  "name_variants nm =
     [lower nm, rstrip_char (CHR ''s'') (lower nm), lower nm @ '':'',
      replace_char (CHR '' '') (CHR ''_'') (lower nm),
      replace_char (CHR ''_'') (CHR '' '') (lower nm),
      ''everyone'', ''all'', ''thoughts'', ''anyone'']"

definition mention_found :: "string \<Rightarrow> string \<Rightarrow> bool" where
  "mention_found nm content_lower = list_ex (\<lambda>v. search_word v content_lower) (name_variants nm)"

definition challenge_words :: "string list" where
  "challenge_words = [''wrong'', ''disagree'', ''against'', ''oppose'', ''bad idea'', ''fails'',
     ''problem'', ''no'', ''but'', ''however'']"

definition support_words :: "string list" where
  "support_words = [''agree'', ''support'', ''favor'', ''good idea'', ''beneficial'', ''works'',
     ''success'', ''yes'', ''exactly'', ''true'']"

definition question_indicators :: "string list" where
  "question_indicators = [''?'', ''what'', ''how'', ''why'', ''when'', ''where'', ''clarify'',
     ''explain'', ''think'', ''opinion'']"

definition expertise_words :: "(string \<times> string list) list" where
  "expertise_words =
     [(''philosophical'', [''meaning'', ''purpose'', ''ethics'', ''moral'', ''should'', ''ought'',
         ''values'', ''principle'']),
      (''analytical'', [''data'', ''evidence'', ''study'', ''research'', ''statistics'', ''proof'',
         ''numbers'', ''facts'']),
      (''practical'', [''implement'', ''real world'', ''actually'', ''practice'', ''work'',
         ''application'']),
      (''critical'', [''assume'', ''problem'', ''issue'', ''concern'', ''risk'', ''wrong'', ''flaw'']),
      (''passionate'', [''amazing'', ''incredible'', ''urgent'', ''important'', ''critical'',
         ''essential'']),
      (''diplomatic'', [''balance'', ''compromise'', ''middle'', ''together'', ''common''])]"

text \<open>The loop over \<open>expertise_words\<close> leaves at the first domain of the personality that
  has a word in the message.\<close>

fun expertise_match :: "(string \<times> string list) list \<Rightarrow> string \<Rightarrow> string \<Rightarrow> bool" where
  "expertise_match [] pers content_lower = False"
| "expertise_match ((domain, ws) # rest) pers content_lower =
     (if contains domain pers \<and> any_in ws content_lower then True
      else expertise_match rest pers content_lower)"

text \<open>\<^verbatim>\<open>_analyze_response_triggers\<close>; \<open>now\<close> is its reading of the clock.\<close>

definition analyze_response_triggers ::
    "bot_config \<Rightarrow> real \<Rightarrow> message \<Rightarrow> string \<Rightarrow> message list \<Rightarrow> triggers" where
  "analyze_response_triggers cfg now m recent_text full_history =
     (let content_lower = lower (content m);
          recent_lower = lower recent_text
      in \<lparr>direct_mention =
             (if mention_found (name cfg) content_lower then True
              else if contains ''what do you think'' content_lower \<and> stance cfg \<noteq> ''neutral''
              then True else False),
           stance_challenged =
             (if stance cfg = ''pro'' then any_in challenge_words recent_lower
              else if stance cfg = ''con'' then any_in support_words recent_lower
              else False),
           question_in_domain =
             (if stance cfg = ''pro'' then False
              else if stance cfg = ''con'' then False
              else if stance cfg = ''neutral'' then any_in question_indicators content_lower
              else False),
           topic_shift = False,
           silence_too_long =
             (if 0 < length full_history then 10 < now - timestamp (last full_history)
              else False),
           expertise_needed = expertise_match expertise_words (lower (personality cfg)) content_lower,
           emotional_trigger = False\<rparr>)"

definition count_true :: "triggers \<Rightarrow> nat" where
  "count_true t = length (filter id [direct_mention t, stance_challenged t, question_in_domain t,
     topic_shift t, silence_too_long t, expertise_needed t, emotional_trigger t])"

text \<open>\<^verbatim>\<open>_get_personality_multiplier\<close>.\<close>

definition get_personality_multiplier :: "bot_config \<Rightarrow> triggers \<Rightarrow> real" where
  "get_personality_multiplier cfg t =
     (let p = lower (personality cfg)
      in if contains ''aggressive'' p \<or> contains ''assertive'' p then 1.4
         else if contains ''passionate'' p \<or> contains ''excited'' p then 1.5
         else if contains ''thoughtful'' p \<or> contains ''philosophical'' p then
           (if question_in_domain t then 1.6 else 1.0)
         else if contains ''analytical'' p \<or> contains ''data-driven'' p then
           (if expertise_needed t then 1.5 else 1.1)
         else if contains ''critical'' p then
           (if stance_challenged t then 1.4 else 1.2)
         else if contains ''balanced'' p \<or> contains ''diplomatic'' p then
           (if stance_challenged t then 1.3 else 1.1)
         else 1.0)"

subsection \<open>The decision to respond\<close>

text \<open>
  What one cycle of the monitoring loop takes from outside: its readings of the
  clock, in the order the code takes them, its random draws, the outcome of the call of
  the language model, and what other participants did to the chat log while the
  generation was awaited.
\<close>

datatype gen_result = GenRaised | GenText string

record cycle_env =
  now_gate :: real
  now_trigger :: real
  now_idle :: real
  now_start :: real
  now_post :: real
  now_done :: real
  now_end :: real
  rand_respond :: real
  rand_threshold :: real
  rand_break :: real
  rand_starter :: real
  generated :: gen_result
  during :: "log_op list"

definition burning_hit :: "string list \<Rightarrow> string \<Rightarrow> bool" where
  "burning_hit questions content_lower =
     list_ex (\<lambda>question. any_in (take 3 (split (lower question))) content_lower) questions"

definition count_sender :: "string \<Rightarrow> message list \<Rightarrow> nat" where
  "count_sender nm ms = length (filter (\<lambda>m. sender m = nm) ms)"

text \<open>The probability \<^verbatim>\<open>_should_respond_autonomously\<close> computes when the message is no
  direct mention, before its cap.\<close>

definition base_probability :: "bot_client \<Rightarrow> triggers \<Rightarrow> string \<Rightarrow> message list \<Rightarrow> real" where
  "base_probability b t content_lower recent_context =
     (let p0 = 0.80;
          p1 = (if stance_challenged t then p0 + 0.8 else p0);
          p2 = (if question_in_domain t then p1 + 0.7 else p1);
          p3 = (if topic_shift t then p2 + 0.5 else p2);
          p4 = (if silence_too_long t then p3 + 0.6 else p3);
          p5 = (if expertise_needed t then p4 + 0.6 else p4);
          p6 = (if burning_hit (burning_questions b) content_lower then p5 + 0.5 else p5);
          my_recent_count = count_sender (name (config b)) recent_context;
          p7 = (if my_recent_count = 0 then p6 + 0.15
                else if 3 \<le> my_recent_count then p6 * 0.7 else p6);
          p8 = p7 * get_personality_multiplier (config b) t;
          p9 = p8 + conversation_energy b * 0.2;
          p10 = p9 + response_urgency b * 0.3
      in if 2 < missed_opportunities b then p10 + 0.2 else p10)"

text \<open>\<^verbatim>\<open>_should_respond_autonomously\<close>: the decision and the bot with its counters
  updated.\<close>

definition should_respond_autonomously ::
    "cycle_env \<Rightarrow> message \<Rightarrow> message list \<Rightarrow> bot_client \<Rightarrow> bool \<times> bot_client" where
  "should_respond_autonomously e new_message full_history b =
     (let content_lower = lower (content new_message);
          recent_context = lastn 10 full_history;
          recent_text = join '' '' (map content (lastn 5 recent_context));
          t = analyze_response_triggers (config b) (now_trigger e) new_message recent_text
                full_history;
          b1 = b\<lparr>bstats := (bstats b)\<lparr>triggers_detected :=
                  triggers_detected (bstats b) + count_true t\<rparr>\<rparr>
      in if direct_mention t then (True, b1)
         else
           (let final_probability = min (base_probability b1 t content_lower recent_context) 0.95;
                should_respond = (rand_respond e < final_probability)
            in if \<not> should_respond
               then (False, b1\<lparr>bstats := (bstats b1)\<lparr>passes_made := passes_made (bstats b1) + 1\<rparr>,
                              missed_opportunities := missed_opportunities b1 + 1\<rparr>)
               else (True, b1)))"

subsection \<open>Generating and posting a response\<close>

text \<open>\<^verbatim>\<open>_update_stats\<close>.\<close>

definition bot_update_stats :: "real \<Rightarrow> bool \<Rightarrow> bot_client \<Rightarrow> bot_client" where
  "bot_update_stats response_time success b =
     (if success then
        (let g = responses_generated (bstats b) + 1;
             tot = total_response_time (bstats b) + response_time
         in b\<lparr>bstats := (bstats b)\<lparr>responses_generated := g, total_response_time := tot,
                   average_response_time := tot / real g\<rparr>\<rparr>)
      else b\<lparr>bstats := (bstats b)\<lparr>errors := errors (bstats b) + 1\<rparr>\<rparr>)"

text \<open>The cooldown set after a successful response, from the number of responses made
  so far.\<close>

definition recompute_cooldown :: "bot_config \<Rightarrow> nat \<Rightarrow> real" where
  "recompute_cooldown cfg n =
     min (max (real_of_int (min_cooldown cfg))
              (real_of_int (min_cooldown cfg) + real n * 0.5))
         (real_of_int (max_cooldown cfg))"

text \<open>
  The body of the \<^verbatim>\<open>try\<close> in \<^verbatim>\<open>_generate_autonomous_response\<close>. \<open>Inl ()\<close> is an exception
  raised by the call of the provider, before the bot has changed; \<open>Inr\<close> carries the state
  after the body and the message posted, if one was.
\<close>

definition generate_body ::
    "cycle_env \<Rightarrow> bot_client \<times> chat_log \<Rightarrow> unit + (bot_client \<times> chat_log) \<times> message option" where
  "generate_body e s =
     (case s of (b, cl) \<Rightarrow>
       (case generated e of
          GenRaised \<Rightarrow> Inl ()
        | GenText response \<Rightarrow>
            (let cl0 = fst (run_ops (during e) cl)
             in if response \<noteq> [] \<and> strip response \<noteq> [] then
                  (let (cl1, m) = add_message
                         \<lparr>in_sender = name (config b), in_content = response,
                          in_type = ''chat'', in_metadata = [], in_now = now_post e\<rparr> cl0;
                       tot = total_responses b + 1;
                       b1 = b\<lparr>last_response_time := now_done e,
                              total_responses := tot,
                              bstats := (bstats b)\<lparr>autonomous_responses :=
                                 autonomous_responses (bstats b) + 1\<rparr>,
                              response_urgency := max 0 (response_urgency b - 0.3),
                              missed_opportunities := max 0 (missed_opportunities b - 1),
                              conversation_energy := min 1.5 (conversation_energy b + 0.1),
                              current_cooldown := recompute_cooldown (config b) tot\<rparr>
                   in Inr ((bot_update_stats (now_end e - now_start e) True b1, cl1), Some m))
                else
                  Inr ((b\<lparr>bstats := (bstats b)\<lparr>passes_made := passes_made (bstats b) + 1\<rparr>\<rparr>,
                        cl0), None))))"

text \<open>\<^verbatim>\<open>_generate_autonomous_response\<close>: the \<^verbatim>\<open>except Exception\<close> clause counts the error
  and the function returns \<^verbatim>\<open>None\<close>.\<close>

definition generate_autonomous_response ::
    "cycle_env \<Rightarrow> bot_client \<times> chat_log \<Rightarrow> (bot_client \<times> chat_log) \<times> message option" where
  "generate_autonomous_response e s =
     (case generate_body e s of
        Inl _ \<Rightarrow> ((bot_update_stats (now_end e - now_start e) False (fst s),
                    fst (run_ops (during e) (snd s))), None)
      | Inr r \<Rightarrow> r)"

subsection \<open>The monitoring loop\<close>

text \<open>The cooldown gate both paths start with.\<close>

definition in_cooldown :: "cycle_env \<Rightarrow> bot_client \<Rightarrow> bool" where
  "in_cooldown e b \<longleftrightarrow> now_gate e - last_response_time b < current_cooldown b"

definition gate_rejects :: "bot_client \<Rightarrow> bot_client" where
  "gate_rejects b = b\<lparr>missed_opportunities := missed_opportunities b + 1,
                      response_urgency := response_urgency b + 0.1\<rparr>"

text \<open>\<^verbatim>\<open>_process_new_message\<close>.\<close>

definition process_new_message ::
    "cycle_env \<Rightarrow> message \<Rightarrow> bot_client \<times> chat_log \<Rightarrow> (bot_client \<times> chat_log) \<times> message option" where
  "process_new_message e m s =
     (case s of (b, cl) \<Rightarrow>
       (let full_history = messages cl
        in if in_cooldown e b then ((gate_rejects b, cl), None)
           else
             (let (should_respond, b1) = should_respond_autonomously e m full_history b
              in if should_respond then generate_autonomous_response e (b1, cl)
                 else ((b1, cl), None))))"

text \<open>\<^verbatim>\<open>_check_spontaneous_contribution\<close>. An empty chat log is falsy
  (\<^verbatim>\<open>ChatLog.__bool__\<close>), so the first test leaves on it.\<close>

definition check_spontaneous_contribution ::
    "cycle_env \<Rightarrow> bot_client \<times> chat_log \<Rightarrow> (bot_client \<times> chat_log) \<times> message option" where
  "check_spontaneous_contribution e s =
     (case s of (b, cl) \<Rightarrow>
       if messages cl = [] then ((b, cl), None)
       else if in_cooldown e b then ((gate_rejects b, cl), None)
       else
         (let full_history = messages cl
          in if 0 < length full_history then
               (let silence_duration = now_trigger e - timestamp (last full_history)
                in if rand_threshold e < silence_duration then
                     (if count_sender (name (config b)) (lastn 5 full_history) = 0
                         \<and> rand_break e < 0.85
                      then (let ((b1, cl1), r) = generate_autonomous_response e (b, cl)
                            in ((b1\<lparr>bstats := (bstats b1)\<lparr>bot_silence_breaks :=
                                     bot_silence_breaks (bstats b1) + 1\<rparr>\<rparr>, cl1), r))
                      else ((b, cl), None))
                   else if 3 < length full_history \<and> 15 < now_idle e - last_response_time b
                           \<and> rand_starter e < 0.3
                   then (let ((b1, cl1), r) = generate_autonomous_response e (b, cl)
                         in ((b1\<lparr>bstats := (bstats b1)\<lparr>conversation_starters :=
                                  conversation_starters (bstats b1) + 1\<rparr>\<rparr>, cl1), r))
                   else ((b, cl), None))
             else ((b, cl), None)))"

text \<open>
  One pass through the body of \<^verbatim>\<open>_autonomous_monitor_loop\<close>: the wait ended with a
  message from the queue or with the timeout. The result is the state and the message
  the bot posted in this cycle, if any.
\<close>

datatype wait_result = Received message | TimedOut

definition monitor_cycle ::
    "wait_result \<Rightarrow> cycle_env \<Rightarrow> bot_client \<times> chat_log \<Rightarrow> (bot_client \<times> chat_log) \<times> message option" where
  "monitor_cycle w e s =
     (case w of
        Received m \<Rightarrow>
          (if sender m = name (config (fst s)) then (s, None) else process_new_message e m s)
      | TimedOut \<Rightarrow> check_spontaneous_contribution e s)"

text \<open>
  A posted message together with the cooldown in force before and after the post.
\<close>

record action =
  posted :: message
  cooldown_before :: real
  cooldown_after :: real

text \<open>
  The loop, over the cycles that happen before it is stopped. A cycle is given by what
  the other participants did to the chat log since the last one (\<open>others\<close>), how the wait
  ended and what the cycle takes from outside. The loop runs while the monitoring flag
  is set; its result is the final state and the actions of the bot, in order.
\<close>

definition loop_step ::
    "log_op list \<times> wait_result \<times> cycle_env \<Rightarrow> bot_client \<times> chat_log \<Rightarrow>
       (bot_client \<times> chat_log) \<times> message option" where
  "loop_step c s =
     (case c of (others, w, e) \<Rightarrow> monitor_cycle w e (fst s, fst (run_ops others (snd s))))"

definition action_of :: "bot_client \<Rightarrow> bot_client \<Rightarrow> message option \<Rightarrow> action list" where
  "action_of b b1 r =
     (case r of None \<Rightarrow> []
      | Some m \<Rightarrow> [\<lparr>posted = m, cooldown_before = current_cooldown b,
                     cooldown_after = current_cooldown b1\<rparr>])"

fun monitor_loop ::
    "(log_op list \<times> wait_result \<times> cycle_env) list \<Rightarrow> bot_client \<times> chat_log \<Rightarrow>
       (bot_client \<times> chat_log) \<times> action list" where
  "monitor_loop [] s = (s, [])"
| "monitor_loop (c # rest) s =
     (if is_monitoring (fst s) then
        (let (s1, r) = loop_step c s;
             (s2, acts) = monitor_loop rest s1
         in (s2, action_of (fst s) (fst s1) r @ acts))
      else (s, []))"

text \<open>
  The readings of the clock never go back: within a cycle the gate is read before the
  post is stamped and the post is stamped before the bot notes the time of its response;
  a later cycle reads its gate after that.
\<close>

fun clock_ok :: "(log_op list \<times> wait_result \<times> cycle_env) list \<Rightarrow> bool" where
  "clock_ok [] = True"
| "clock_ok (c # rest) =
     (now_gate (snd (snd c)) \<le> now_post (snd (snd c))
      \<and> now_post (snd (snd c)) \<le> now_done (snd (snd c))
      \<and> list_all (\<lambda>c'. now_done (snd (snd c)) \<le> now_gate (snd (snd c'))) rest
      \<and> clock_ok rest)"

text \<open>Every later action is stamped at least the given cooldown of an earlier one after
  it.\<close>

fun spaced :: "(action \<Rightarrow> real) \<Rightarrow> action list \<Rightarrow> bool" where
  "spaced cd [] = True"
| "spaced cd (a # rest) =
     (list_all (\<lambda>a'. cd a \<le> timestamp (posted a') - timestamp (posted a)) rest
      \<and> spaced cd rest)"

text \<open>The cooldown is the one computed from the number of responses made.\<close>

definition cooldown_inv :: "bot_client \<Rightarrow> bool" where
  "cooldown_inv b \<longleftrightarrow> current_cooldown b = recompute_cooldown (config b) (total_responses b)"

text \<open>A generation attempt fails: the provider raised, or the text is empty once
  stripped.\<close>

definition gen_fails :: "cycle_env \<Rightarrow> bool" where
  "gen_fails e \<longleftrightarrow>
     (case generated e of GenRaised \<Rightarrow> True | GenText r \<Rightarrow> r = [] \<or> strip r = [])"

text \<open>
  What a cycle does to the fields the cooldown rests on: without a post they are
  unchanged; with a post, the post carries the bot's name and the time read for it, the
  time of the last response is the reading taken after it and the cooldown is the one
  recomputed from the incremented count.
\<close>

definition cycle_ok ::
    "cycle_env \<Rightarrow> bot_client \<Rightarrow> (bot_client \<times> chat_log) \<times> message option \<Rightarrow> bool" where
  "cycle_ok e b res \<longleftrightarrow>
     config (fst (fst res)) = config b \<and> is_monitoring (fst (fst res)) = is_monitoring b
     \<and> (case snd res of
          None \<Rightarrow> last_response_time (fst (fst res)) = last_response_time b
                  \<and> current_cooldown (fst (fst res)) = current_cooldown b
                  \<and> total_responses (fst (fst res)) = total_responses b
        | Some m \<Rightarrow> timestamp m = now_post e \<and> sender m = name (config b)
                  \<and> last_response_time (fst (fst res)) = now_done e
                  \<and> total_responses (fst (fst res)) = total_responses b + 1
                  \<and> current_cooldown (fst (fst res)) =
                        recompute_cooldown (config b) (total_responses b + 1))"

subsection \<open>A concrete bot and run, for examples\<close>

definition ex_cfg :: bot_config where
  "ex_cfg = make_config ''Socrates'' ''gpt-4'' ''openai'' ''philosophical'' ''neutral'' 120"

definition ex_bot :: bot_client where
  "ex_bot = start_monitoring (new_bot_client ex_cfg [''What does this mean for human purpose?''])"

definition ex_env :: "real \<Rightarrow> gen_result \<Rightarrow> cycle_env" where
  "ex_env t g = \<lparr>now_gate = t, now_trigger = t, now_idle = t, now_start = t,
     now_post = t + 1, now_done = t + 2, now_end = t + 2, rand_respond = 0.99,
     rand_threshold = 8, rand_break = 0.5, rand_starter = 0.5, generated = g, during = []\<rparr>"

definition ex_msg :: "string \<Rightarrow> message" where
  "ex_msg c = \<lparr>sender = ''Alice'', content = c, timestamp = 0, message_id = 1,
     message_type = ''chat'', metadata = []\<rparr>"

definition ex_cycles :: "(log_op list \<times> wait_result \<times> cycle_env) list" where
  "ex_cycles =
     [([], Received (ex_msg ''What does everyone think?''), ex_env 100 (GenText ''I wonder.'')),
      ([], Received (ex_msg ''Socrates, again?''), ex_env 104 (GenText ''Too soon.'')),
      ([], Received (ex_msg ''Socrates, and now?''), ex_env 110 (GenText ''Now I may.''))]"

section \<open>The moderator (app/moderator.py)\<close>

datatype debate_phase = Introduction | OpeningStatements | Discussion | ClosingStatements
  | Voting | Results | Finished

text \<open>
  A participant as the moderator sees it: its name, whether it is a bot (it has
  \<^verbatim>\<open>stop_monitoring\<close>; a human has a participation loop instead, run as one of the
  moderator's tasks) and whether its loop is running.
\<close>

record participant =
  p_name :: string
  p_is_bot :: bool
  p_running :: bool
  p_queue :: "nat option"

record moderator =
  phase :: debate_phase
  current_speaker :: "string option"
  time_remaining :: int
  turn_order :: "string list"
  warnings_issued :: "string \<rightharpoonup> nat"
  chat :: chat_log
  participants :: "participant list"
  moderator_bot_running :: bool
  moderator_bot_queue :: "nat option"
  autonomous_mode :: bool
  autonomous_tasks :: nat
  phase_task_running :: bool
  warning_time :: real
  max_message_length :: nat
  silence_timeout :: real
  last_activity_time :: real
  last_moderator_prompt :: real

text \<open>Messages are written without the emoji the source puts in front of them.\<close>

text \<open>
  \<^verbatim>\<open>_broadcast_message\<close>: the message goes to the chat log with sender and type
  \<open>moderator\<close>; handing it to each participant afterwards changes the participants' own
  histories only, and a failure there is caught. The result carries the message
  appended.
\<close>

definition broadcast_message :: "string \<Rightarrow> real \<Rightarrow> moderator \<Rightarrow> moderator \<times> message" where
  "broadcast_message text now md =
     (let (cl, m) = add_message \<lparr>in_sender = ''moderator'', in_content = text,
                      in_type = ''moderator'', in_metadata = [], in_now = now\<rparr> (chat md)
      in (md\<lparr>chat := cl\<rparr>, m))"

subsection \<open>Running the debate\<close>

text \<open>
  An exception a phase can end with: an instance of \<^verbatim>\<open>Exception\<close> with its text, or one
  that only derives from \<^verbatim>\<open>BaseException\<close> (a cancellation, an interrupt), which
  \<^verbatim>\<open>except Exception\<close> does not catch.
\<close>

datatype exn = Exception string | BaseOnly string

text \<open>
  What a phase did when it was run: every phase first sets the phase of the state; then
  it uses the chat log (itself and the participants, \<open>did\<close>), the autonomous discussion
  starts loops (\<open>starts\<close>: the names of the participants whose loops were started,
  \<open>starts_moderator\<close> for the moderator's own bot, \<open>tasks\<close> the tasks added), and it
  returns or raises (\<open>raised\<close>).
\<close>

record phase_run =
  did :: "log_op list"
  starts :: "string list"
  starts_moderator :: bool
  tasks :: nat
  raised :: "exn option"

definition run_phase :: "debate_phase \<Rightarrow> phase_run \<Rightarrow> moderator \<Rightarrow> moderator \<times> exn option" where
  "run_phase ph r md =
     (let md1 = md\<lparr>phase := ph, chat := fst (run_ops (did r) (chat md))\<rparr>;
          md2 = (if ph = Discussion \<and> autonomous_mode md then
                   md1\<lparr>participants := map (\<lambda>p. if p_name p \<in> set (starts r)
                                                  then p\<lparr>p_running := True\<rparr> else p)
                                            (participants md1),
                       moderator_bot_running := (moderator_bot_running md1 \<or> starts_moderator r),
                       autonomous_tasks := autonomous_tasks md1 + tasks r,
                       phase_task_running := True\<rparr>
                 else md1)
      in (md2, raised r))"

text \<open>The statements of the \<^verbatim>\<open>try\<close> block, one phase after the other, up to the first
  that raises. The third component lists the phases entered.\<close>

fun run_phases ::
    "debate_phase list \<Rightarrow> (debate_phase \<Rightarrow> phase_run) \<Rightarrow> moderator \<Rightarrow>
       moderator \<times> exn option \<times> debate_phase list" where
  "run_phases [] runs md = (md, None, [])"
| "run_phases (ph # rest) runs md =
     (let (md1, x) = run_phase ph (runs ph) md
      in case x of
           Some e \<Rightarrow> (md1, Some e, [ph])
         | None \<Rightarrow> (let (md2, x2, entered) = run_phases rest runs md1 in (md2, x2, ph # entered)))"

definition debate_phases :: "debate_phase list" where
  "debate_phases = [Introduction, OpeningStatements, Discussion, ClosingStatements, Voting, Results]"

text \<open>
  \<^verbatim>\<open>stop_monitoring\<close> of a bot clears its flag and cancels its loop; it unsubscribes the
  bot's queue when the bot has one and the chat log is truthy, that is, not empty.
\<close>

definition stop_queue :: "nat option \<Rightarrow> chat_log \<Rightarrow> chat_log" where
  "stop_queue q cl =
     (case q of None \<Rightarrow> cl
      | Some r \<Rightarrow> if messages cl \<noteq> [] then unsubscribe r cl else cl)"

text \<open>
  \<^verbatim>\<open>_cleanup_autonomous_tasks\<close>: every bot is told to stop monitoring, then the moderator's
  bot; every task still running is cancelled (the participation loops of the humans are
  among them), then the phase task; the task list is cleared.
\<close>

definition cleanup_autonomous_tasks :: "moderator \<Rightarrow> moderator" where
  "cleanup_autonomous_tasks md =
     md\<lparr>participants := map (\<lambda>p. p\<lparr>p_running := False\<rparr>) (participants md),
        chat := stop_queue (moderator_bot_queue md)
                  (fold (\<lambda>p cl. if p_is_bot p then stop_queue (p_queue p) cl else cl)
                     (participants md) (chat md)),
        moderator_bot_running := False,
        phase_task_running := False,
        autonomous_tasks := 0\<rparr>"

definition error_text :: "string \<Rightarrow> string" where
  "error_text e = ''Debate error: '' @ e @ ''. Ending session.''"

text \<open>The \<^verbatim>\<open>except Exception\<close> clause of \<^verbatim>\<open>run_debate\<close>.\<close>

definition handle_exception :: "exn option \<Rightarrow> real \<Rightarrow> moderator \<Rightarrow> moderator" where
  "handle_exception x now md =
     (case x of
        Some (Exception e) \<Rightarrow> fst (broadcast_message (error_text e) now md)
      | _ \<Rightarrow> md)"

text \<open>The \<^verbatim>\<open>finally\<close> clause of \<^verbatim>\<open>run_debate\<close>.\<close>

definition finally_clause :: "moderator \<Rightarrow> moderator" where
  "finally_clause md =
     (let md1 = (if autonomous_mode md then cleanup_autonomous_tasks md else md)
      in md1\<lparr>phase := Finished\<rparr>)"

text \<open>
  \<^verbatim>\<open>run_debate\<close>. The result is the final state, the exception that leaves the function
  (\<open>None\<close> when it returns its results) and the phases that were entered.
\<close>

definition run_debate ::
    "(debate_phase \<Rightarrow> phase_run) \<Rightarrow> real \<Rightarrow> moderator \<Rightarrow> moderator \<times> exn option \<times> debate_phase list" where
  "run_debate runs now md =
     (let (md1, x, entered) = run_phases debate_phases runs md
      in (finally_clause (handle_exception x now md1), x, entered))"

text \<open>The state \<^verbatim>\<open>Moderator.__init__\<close> sets up: no loop runs, no task exists.\<close>

definition quiet :: "moderator \<Rightarrow> bool" where
  "quiet md \<longleftrightarrow>
     list_all (\<lambda>p. \<not> p_running p) (participants md) \<and> \<not> moderator_bot_running md
     \<and> \<not> phase_task_running md \<and> autonomous_tasks md = 0"

text \<open>A moderator with one bot and one human in autonomous mode, and a debate whose
  discussion phase fails, for examples.\<close>

definition ex_moderator :: moderator where
  "ex_moderator =
     \<lparr>phase = Introduction, current_speaker = None, time_remaining = 0,
      turn_order = [''Socrates'', ''Alice''], warnings_issued = Map.empty,
      chat = init_chat_log 1000 0,
      participants = [\<lparr>p_name = ''Socrates'', p_is_bot = True, p_running = False, p_queue = None\<rparr>,
                      \<lparr>p_name = ''Alice'', p_is_bot = False, p_running = False, p_queue = None\<rparr>],
      moderator_bot_running = False, moderator_bot_queue = None, autonomous_mode = True,
      autonomous_tasks = 0, phase_task_running = False, warning_time = 90,
      max_message_length = 5000, silence_timeout = 60, last_activity_time = 0,
      last_moderator_prompt = 0\<rparr>"

definition ex_runs :: "debate_phase \<Rightarrow> phase_run" where
  "ex_runs ph =
     (if ph = Discussion then
        \<lparr>did = [Add (ex_add ''moderator'' ''begin''), Add (ex_add ''Socrates'' ''hello'')],
         starts = [''Socrates'', ''Alice''], starts_moderator = True, tasks = 3,
         raised = Some (Exception ''boom'')\<rparr>
      else \<lparr>did = [Add (ex_add ''moderator'' ''phase'')], starts = [], starts_moderator = False,
             tasks = 0, raised = None\<rparr>)"

subsection \<open>Facilitating the autonomous discussion\<close>

definition simple_prompts :: "string list" where
  "simple_prompts =
     [''What are your thoughts on the discussion so far?'',
      ''Any other perspectives to consider?'',
      ''Does anyone have questions about the points raised?'',
      ''How do you weigh the different arguments presented?'']"

definition five_minutes :: string where
  "five_minutes = ''5 minutes remaining in autonomous discussion phase''"

definition two_minutes :: string where
  "two_minutes = ''2 minutes left! Perfect time for final thoughts on this topic''"

definition one_minute :: string where
  "one_minute = ''Final minute! Any last contributions to the discussion?''"

text \<open>\<^verbatim>\<open>_provide_time_updates\<close>: the moderator after it and the messages it broadcast.\<close>

definition provide_time_updates :: "real \<Rightarrow> real \<Rightarrow> moderator \<Rightarrow> moderator \<times> message list" where
  "provide_time_updates remaining now md =
     (if 299 < remaining \<and> remaining \<le> 301 then
        (let (md1, m) = broadcast_message five_minutes now md in (md1, [m]))
      else if 119 < remaining \<and> remaining \<le> 121 then
        (let (md1, m) = broadcast_message two_minutes now md in (md1, [m]))
      else if 59 < remaining \<and> remaining \<le> 61 then
        (let (md1, m) = broadcast_message one_minute now md in (md1, [m]))
      else (md, []))"

text \<open>
  One pass of the loop of \<^verbatim>\<open>_facilitate_autonomous_discussion\<close> takes from outside: the
  clock read by the test of the loop (\<open>t_cond\<close>), what the participants did to the chat
  log during the sleep of 15 seconds (\<open>t_others\<close>), the clock read after the sleep
  (\<open>t_now\<close>), the prompt \<^verbatim>\<open>random.choice\<close> picks and the time stamped on the
  broadcasts.
\<close>

record tick =
  t_cond :: real
  t_others :: "log_op list"
  t_now :: real
  t_pick :: nat
  t_stamp :: real

text \<open>The body of the loop, in its three parts. \<open>last_count\<close> is the local
  \<^verbatim>\<open>last_message_count\<close>. First, new messages count as activity.\<close>

definition note_activity :: "tick \<Rightarrow> nat \<times> moderator \<Rightarrow> nat \<times> moderator" where
  "note_activity k s =
     (case s of (last_count, md) \<Rightarrow>
       (let current_count = length (messages (chat md))
        in if last_count < current_count
           then (current_count, md\<lparr>last_activity_time := t_now k\<rparr>)
           else (last_count, md)))"

text \<open>Second, after a long silence a simple prompt is broadcast, unless one was less
  than 45 seconds ago.\<close>

definition prompt_on_silence :: "tick \<Rightarrow> moderator \<Rightarrow> moderator \<times> message list" where
  "prompt_on_silence k md =
     (let silence_duration = t_now k - last_activity_time md
      in if silence_timeout md < silence_duration \<and> 45 < t_now k - last_moderator_prompt md
         then (let (md1, m) = broadcast_message
                                (simple_prompts ! (t_pick k mod length simple_prompts))
                                (t_stamp k) md
               in (md1\<lparr>last_moderator_prompt := t_now k\<rparr>, [m]))
         else (md, []))"

text \<open>Third, the time updates, from the time remaining at the reading after the sleep.\<close>

definition facilitate_step ::
    "real \<Rightarrow> real \<Rightarrow> tick \<Rightarrow> nat \<times> moderator \<Rightarrow> (nat \<times> moderator) \<times> message list" where
  "facilitate_step began budget k s =
     (let s0 = (fst s, (snd s)\<lparr>chat := fst (run_ops (t_others k) (chat (snd s)))\<rparr>);
          elapsed = t_now k - began;
          remaining = budget - elapsed;
          (count1, md1) = note_activity k s0;
          (md2, out1) = prompt_on_silence k md1;
          (md3, out2) = provide_time_updates remaining (t_stamp k) md2
      in ((count1, md3), out1 @ out2))"

text \<open>The loop, over the passes the inputs provide: it leaves when the budget of the
  phase is used up. The result carries the messages the loop broadcast, in order.\<close>

fun facilitate ::
    "real \<Rightarrow> real \<Rightarrow> tick list \<Rightarrow> nat \<times> moderator \<Rightarrow> (nat \<times> moderator) \<times> message list" where
  "facilitate began budget [] s = (s, [])"
| "facilitate began budget (k # ks) s =
     (if t_cond k - began < budget then
        (let (s1, out) = facilitate_step began budget k s;
             (s2, out') = facilitate began budget ks s1
         in (s2, out @ out'))
      else (s, []))"

text \<open>\<^verbatim>\<open>_facilitate_autonomous_discussion\<close> starts from the number of stored messages.\<close>

definition facilitate_autonomous_discussion ::
    "real \<Rightarrow> real \<Rightarrow> tick list \<Rightarrow> moderator \<Rightarrow> moderator \<times> message list" where
  "facilitate_autonomous_discussion began budget ks md =
     (let (s, out) = facilitate began budget ks (length (messages (chat md)), md)
      in (snd s, out))"

definition count_content :: "string \<Rightarrow> message list \<Rightarrow> nat" where
  "count_content text ms = length (filter (\<lambda>m. content m = text) ms)"

text \<open>The passes the loop makes before it leaves, and those among them that find the
  remaining time in a window \<open>(lo, hi]\<close>.\<close>

fun passes :: "real \<Rightarrow> real \<Rightarrow> tick list \<Rightarrow> tick list" where
  "passes began budget [] = []"
| "passes began budget (k # ks) =
     (if t_cond k - began < budget then k # passes began budget ks else [])"

definition in_window :: "real \<Rightarrow> real \<Rightarrow> real \<Rightarrow> real \<Rightarrow> tick \<Rightarrow> bool" where
  "in_window began budget lo hi k \<longleftrightarrow>
     lo < budget - (t_now k - began) \<and> budget - (t_now k - began) \<le> hi"

text \<open>Each pass reads the clock at least 15 seconds after every earlier pass did (the
  loop sleeps 15 seconds in between).\<close>

fun ticks_apart :: "tick list \<Rightarrow> bool" where
  "ticks_apart [] = True"
| "ticks_apart (k # ks) = (list_all (\<lambda>k'. t_now k + 15 \<le> t_now k') ks \<and> ticks_apart ks)"

text \<open>
  A discussion of 30 minutes in which every pass of the loop takes 15.02 seconds: pass
  \<open>i\<close> tests the clock at \<open>15.02 i\<close> and reads it after the sleep at \<open>15.02 (i + 1)\<close>; the
  test of the last pass finds the budget used up.
\<close>

definition drift_tick :: "nat \<Rightarrow> tick" where
  "drift_tick i = \<lparr>t_cond = 15.02 * real i, t_others = [], t_now = 15.02 * real (i + 1),
     t_pick = i, t_stamp = 15.02 * real (i + 1)\<rparr>"

definition drift_ticks :: "tick list" where
  "drift_ticks = map drift_tick [0 ..< 121]"

text \<open>Three passes of exactly 15 seconds in a discussion of five and a half minutes.\<close>

definition short_ticks :: "tick list" where
  "short_ticks =
     [\<lparr>t_cond = 0, t_others = [], t_now = 15, t_pick = 0, t_stamp = 15\<rparr>,
      \<lparr>t_cond = 15, t_others = [], t_now = 30, t_pick = 1, t_stamp = 30\<rparr>,
      \<lparr>t_cond = 30, t_others = [], t_now = 45, t_pick = 2, t_stamp = 45\<rparr>]"

subsection \<open>Structured turns\<close>

text \<open>Decimal numerals, as \<^verbatim>\<open>str\<close> and the f-strings print integers.\<close>

fun digits :: "nat \<Rightarrow> string" where
  "digits n =
     (if n < 10 then [''0123456789'' ! n]
      else digits (n div 10) @ [''0123456789'' ! (n mod 10)])"

definition show_int :: "int \<Rightarrow> string" where
  "show_int i = (if i < 0 then CHR ''-'' # digits (nat (- i)) else digits (nat i))"

text \<open>
  How the response task of a turn ends: when it is left alone it returns a text or
  raises; when it is cancelled it ends cancelled (a bot's \<^verbatim>\<open>get_response\<close> lets the
  cancellation through) or returns all the same (a human's input routine catches the
  cancellation and returns the empty text). The \<^verbatim>\<open>get_response\<close> of neither raises
  anything else on cancellation.
\<close>

datatype task_result = Returned string | Raised string

datatype cancel_result = Cancelled | ReturnedAfterCancel string

text \<open>
  What a turn takes from outside: the clock at the start of the timer, the clock at
  each pass of the timer loop that finds the task still running (\<open>readings\<close>; the task is
  found done at the pass after the last of them), how the task ends, and the time
  stamped on a message by its number.
\<close>

record turn_env =
  timer_start :: real
  readings :: "real list"
  completes :: task_result
  cancel_ends :: cancel_result
  stamp :: "nat \<Rightarrow> real"

text \<open>The moderator after a step of a turn, the messages the step added to the chat log
  and the number of calls of \<^verbatim>\<open>response_task.cancel()\<close>.\<close>

record turn_result =
  after :: moderator
  said :: "message list"
  task_cancels :: nat

definition say :: "turn_env \<Rightarrow> string \<Rightarrow> turn_result \<Rightarrow> turn_result" where
  "say e text r =
     (let (md, m) = broadcast_message text (stamp e (message_counter (chat (after r)))) (after r)
      in r\<lparr>after := md, said := said r @ [m]\<rparr>)"

definition warnings_of :: "moderator \<Rightarrow> string \<Rightarrow> nat" where
  "warnings_of md nm = (case warnings_issued md nm of None \<Rightarrow> 0 | Some c \<Rightarrow> c)"

definition timeout_text :: "string \<Rightarrow> nat \<Rightarrow> string" where
  "timeout_text nm k = nm @ '' exceeded time limit. Warning '' @ digits k @ ''/3''"

text \<open>\<^verbatim>\<open>_handle_timeout\<close>.\<close>

definition handle_timeout :: "turn_env \<Rightarrow> string \<Rightarrow> turn_result \<Rightarrow> turn_result" where
  "handle_timeout e nm r =
     (let k = warnings_of (after r) nm + 1;
          r1 = r\<lparr>after := (after r)\<lparr>warnings_issued := (warnings_issued (after r))(nm \<mapsto> k)\<rparr>\<rparr>
      in say e (timeout_text nm k) r1)"

text \<open>\<^verbatim>\<open>_send_warning\<close>; the time remaining is positive where it is called.\<close>

definition send_warning :: "turn_env \<Rightarrow> string \<Rightarrow> real \<Rightarrow> turn_result \<Rightarrow> turn_result" where
  "send_warning e nm remaining r =
     say e (nm @ '': '' @ show_int \<lfloor>remaining\<rfloor> @ '' seconds remaining'') r"

text \<open>\<^verbatim>\<open>_process_response\<close>.\<close>

definition process_response :: "turn_env \<Rightarrow> string \<Rightarrow> string \<Rightarrow> turn_result \<Rightarrow> turn_result" where
  "process_response e nm response r =
     (let long = max_message_length (after r) < length response;
          response1 = (if long then take (max_message_length (after r)) response @ ''...''
                       else response);
          r1 = (if long then say e (nm @ '''s response was truncated due to length'') r else r);
          (cl, m) = add_message \<lparr>in_sender = nm, in_content = response1, in_type = ''chat'',
                       in_metadata = [],
                       in_now = stamp e (message_counter (chat (after r1)))\<rparr> (chat (after r1))
      in r1\<lparr>after := (after r1)\<lparr>chat := cl\<rparr>, said := said r1 @ [m]\<rparr>)"

text \<open>
  The timer loop of \<^verbatim>\<open>_give_structured_turn\<close>, over the passes that find the task
  running. \<open>True\<close> in the result says that the time ran out: the task was cancelled and
  the loop left.
\<close>

fun timer_loop ::
    "turn_env \<Rightarrow> string \<Rightarrow> int \<Rightarrow> real list \<Rightarrow> bool \<Rightarrow> turn_result \<Rightarrow> turn_result \<times> bool" where
  "timer_loop e nm time_limit [] warning_sent r = (r, False)"
| "timer_loop e nm time_limit (t # ts) warning_sent r =
     (let elapsed = t - timer_start e;
          remaining = real_of_int time_limit - elapsed
      in if remaining \<le> 0 then (r\<lparr>task_cancels := task_cancels r + 1\<rparr>, True)
         else if \<not> warning_sent \<and> remaining \<le> warning_time (after r)
              then timer_loop e nm time_limit ts True (send_warning e nm remaining r)
              else timer_loop e nm time_limit ts warning_sent r)"

text \<open>
  \<^verbatim>\<open>_give_structured_turn\<close> for a participant of the turn order, in three parts. It sets
  the speaker and announces the turn; it runs the timer loop; and it closes the turn:
  after a timeout the cancelled task is awaited and \<^verbatim>\<open>_handle_timeout\<close> is called, a task
  that is done and not cancelled has its response processed when that is not empty, an
  exception it raised is reported, and the \<^verbatim>\<open>finally\<close> clause clears the speaker.
\<close>

definition open_turn :: "turn_env \<Rightarrow> string \<Rightarrow> int \<Rightarrow> string \<Rightarrow> moderator \<Rightarrow> turn_result" where
  "open_turn e nm time_limit turn_type md =
     say e (nm @ '''s turn for '' @ turn_type @ '' ('' @ show_int time_limit @ ''s)'')
       \<lparr>after = md\<lparr>current_speaker := Some nm, time_remaining := time_limit\<rparr>,
        said = [], task_cancels = 0\<rparr>"

definition close_turn :: "turn_env \<Rightarrow> string \<Rightarrow> bool \<Rightarrow> turn_result \<Rightarrow> turn_result" where
  "close_turn e nm timed_out r =
     (let r2 = (if timed_out then
                  (let r' = handle_timeout e nm r
                   in case cancel_ends e of
                        Cancelled \<Rightarrow> r'
                      | ReturnedAfterCancel response \<Rightarrow>
                          (if response \<noteq> [] then process_response e nm response r' else r'))
                else
                  (case completes e of
                     Returned response \<Rightarrow>
                       (if response \<noteq> [] then process_response e nm response r else r)
                   | Raised x \<Rightarrow>
                       say e (''Error getting response from '' @ nm @ '': '' @ x) r))
      in r2\<lparr>after := (after r2)\<lparr>current_speaker := None\<rparr>\<rparr>)"

definition give_structured_turn ::
    "turn_env \<Rightarrow> string \<Rightarrow> int \<Rightarrow> string \<Rightarrow> moderator \<Rightarrow> turn_result" where
  "give_structured_turn e nm time_limit turn_type md =
     (let (r1, timed_out) = timer_loop e nm time_limit (readings e) False
                              (open_turn e nm time_limit turn_type md)
      in close_turn e nm timed_out r1)"

text \<open>The time of a turn runs out when a pass of the timer finds the task running with
  no time remaining.\<close>

definition expired :: "turn_env \<Rightarrow> int \<Rightarrow> bool" where
  "expired e time_limit \<longleftrightarrow>
     list_ex (\<lambda>t. real_of_int time_limit - (t - timer_start e) \<le> 0) (readings e)"

text \<open>A turn of two seconds in which a bot does not answer in time, for examples.\<close>

definition late_env :: turn_env where
  "late_env = \<lparr>timer_start = 10, readings = [10, 10.5, 11, 11.5, 12], completes = Returned ''late'',
     cancel_ends = Cancelled, stamp = (\<lambda>n. 10 + real n)\<rparr>"

definition late_turn :: "moderator \<Rightarrow> moderator" where
  "late_turn md = after (give_structured_turn late_env ''Socrates'' 2 ''response'' md)"

section \<open>The voting system (app/voting.py)\<close>

record vote =
  voter_id :: string
  candidate :: string
  justification :: "string option"
  vote_time :: real
  anonymous :: bool

record voting_results =
  winner :: "string option"
  vote_counts :: "(string \<times> nat) list"
  total_votes :: nat
  votes_by_voter :: "(string \<times> vote) list"
  voting_duration_taken :: real
  participation_rate :: real

text \<open>
  The \<^verbatim>\<open>VotingSystem\<close>. The dictionary \<open>votes\<close> is an association list in insertion order:
  a key that is assigned again keeps its place.
\<close>

record voting_system =
  enabled :: bool
  voting_duration :: int
  allow_participant_voting :: bool
  require_justification :: bool
  anonymous_votes :: bool
  is_active :: bool
  candidates :: "string list"
  eligible_voters :: "string list"
  votes :: "(string \<times> vote) list"
  voting_start :: "real option"
  end_time :: "real option"
  vote_history :: "(real \<times> string list \<times> voting_results) list"

datatype vote_error = ValueError string

text \<open>\<^verbatim>\<open>start_voting\<close>; a duration that is \<^verbatim>\<open>None\<close> or zero gives way to the configured
  one.\<close>

definition start_voting ::
    "string list \<Rightarrow> int option \<Rightarrow> real \<Rightarrow> voting_system \<Rightarrow> vote_error + voting_system" where
  "start_voting cands duration now vs =
     (if \<not> enabled vs then Inl (ValueError ''Voting system is disabled'')
      else if is_active vs then Inl (ValueError ''Voting session already active'')
      else Inr (vs\<lparr>candidates := cands,
                    eligible_voters := (if allow_participant_voting vs then cands else []),
                    votes := [],
                    voting_start := Some now,
                    end_time := Some (now + real_of_int
                      (case duration of None \<Rightarrow> voting_duration vs
                       | Some d \<Rightarrow> if d = 0 then voting_duration vs else d)),
                    is_active := True\<rparr>))"

definition is_eligible_voter :: "voting_system \<Rightarrow> string \<Rightarrow> bool" where
  "is_eligible_voter vs v = (if eligible_voters vs = [] then True else v \<in> set (eligible_voters vs))"

record cast =
  c_voter :: string
  c_candidate :: string
  c_justification :: "string option"
  c_now :: real

text \<open>The checks of \<^verbatim>\<open>cast_vote\<close>, in its order; \<open>None\<close> when the vote is accepted. An
  active session has its end time set.\<close>

definition cast_refused :: "cast \<Rightarrow> voting_system \<Rightarrow> vote_error option" where
  "cast_refused c vs =
     (if \<not> is_active vs then Some (ValueError ''No active voting session'')
      else if (case end_time vs of None \<Rightarrow> False | Some t \<Rightarrow> t < c_now c)
        then Some (ValueError ''Voting period has ended'')
      else if \<not> is_eligible_voter vs (c_voter c)
        then Some (ValueError (''Voter '' @ c_voter c @ '' is not eligible to vote''))
      else if c_candidate c \<notin> set (candidates vs)
        then Some (ValueError (''Invalid candidate: '' @ c_candidate c))
      else if c_voter c = c_candidate c \<and> \<not> allow_participant_voting vs
        then Some (ValueError ''Self-voting is not allowed'')
      else if require_justification vs
              \<and> (c_justification c = None \<or> c_justification c = Some [])
        then Some (ValueError ''Vote justification is required'')
      else None)"

definition vote_of :: "cast \<Rightarrow> voting_system \<Rightarrow> vote" where
  "vote_of c vs = \<lparr>voter_id = c_voter c, candidate = c_candidate c,
     justification = c_justification c, vote_time = c_now c, anonymous = anonymous_votes vs\<rparr>"

text \<open>\<^verbatim>\<open>cast_vote\<close>: it raises, or records the vote under the voter's key and returns
  \<^verbatim>\<open>True\<close>.\<close>

definition cast_vote :: "cast \<Rightarrow> voting_system \<Rightarrow> vote_error + voting_system" where
  "cast_vote c vs =
     (case cast_refused c vs of
        Some err \<Rightarrow> Inl err
      | None \<Rightarrow> Inr (vs\<lparr>votes := AList.update (c_voter c) (vote_of c vs) (votes vs)\<rparr>))"

text \<open>A series of calls of \<^verbatim>\<open>cast_vote\<close>; a call that raises leaves the system as it
  was.\<close>

fun cast_all :: "cast list \<Rightarrow> voting_system \<Rightarrow> voting_system" where
  "cast_all [] vs = vs"
| "cast_all (c # cs) vs =
     (case cast_vote c vs of Inl err \<Rightarrow> cast_all cs vs | Inr vs' \<Rightarrow> cast_all cs vs')"

text \<open>\<^verbatim>\<open>Counter(xs)\<close>: the items with their numbers of occurrences, in the order of their
  first occurrences.\<close>

definition counter :: "string list \<Rightarrow> (string \<times> nat) list" where
  "counter xs =
     fold (\<lambda>x al. AList.update x ((case map_of al x of None \<Rightarrow> 0 | Some n \<Rightarrow> n) + 1) al) xs []"

definition winners_of :: "(string \<times> nat) list \<Rightarrow> string list" where
  "winners_of counts =
     (let max_votes = fold max (map snd counts) 0
      in map fst (filter (\<lambda>p. snd p = max_votes) counts))"

definition decide_winner :: "(string \<times> nat) list \<Rightarrow> string option" where
  "decide_winner counts =
     (if counts = [] then None
      else (let winners = winners_of counts
            in if length winners = 1 then Some (hd winners)
               else Some (''TIE: '' @ join '', '' winners)))"

text \<open>The results \<^verbatim>\<open>end_voting\<close> computes from the recorded votes.\<close>

definition compute_results :: "real \<Rightarrow> voting_system \<Rightarrow> voting_results" where
  "compute_results now vs =
     (let counts = counter (map (\<lambda>p. candidate (snd p)) (votes vs));
          n = length (votes vs)
      in \<lparr>winner = decide_winner counts,
          vote_counts = counts,
          total_votes = n,
          votes_by_voter = votes vs,
          voting_duration_taken = now - (case voting_start vs of None \<Rightarrow> 0 | Some t \<Rightarrow> t),
          participation_rate =
            (if eligible_voters vs = [] then 0
             else real n / real (length (eligible_voters vs)))\<rparr>)"

text \<open>\<^verbatim>\<open>end_voting\<close>: it raises when no session is active; otherwise it closes the session,
  computes the results and files them in the history.\<close>

definition end_voting :: "real \<Rightarrow> voting_system \<Rightarrow> vote_error + voting_system \<times> voting_results" where
  "end_voting now vs =
     (if \<not> is_active vs then Inl (ValueError ''No active voting session'')
      else
        (let res = compute_results now vs
         in Inr (vs\<lparr>is_active := False,
                     vote_history := vote_history vs @ [(now, candidates vs, res)]\<rparr>, res)))"

text \<open>The number of voters whose recorded vote is for a candidate.\<close>

definition tally :: "voting_system \<Rightarrow> string \<Rightarrow> nat" where
  "tally vs c = length (filter (\<lambda>p. candidate (snd p) = c) (votes vs))"

text \<open>A system with three candidates, open for votes, and a series of casts for
  examples.\<close>

definition ex_voting :: voting_system where
  "ex_voting = \<lparr>enabled = True, voting_duration = 300, allow_participant_voting = True,
     require_justification = False, anonymous_votes = False, is_active = True,
     candidates = [''Ann'', ''Bob'', ''Cy''], eligible_voters = [''Ann'', ''Bob'', ''Cy''],
     votes = [], voting_start = Some 0, end_time = Some 300, vote_history = []\<rparr>"

definition ex_cast :: "string \<Rightarrow> string \<Rightarrow> cast" where
  "ex_cast v c = \<lparr>c_voter = v, c_candidate = c, c_justification = None, c_now = 10\<rparr>"

text \<open>The count a counter holds for an item, zero when the item is no key.\<close>

definition cnt :: "(string \<times> nat) list \<Rightarrow> string \<Rightarrow> nat" where
  "cnt al x = (case map_of al x of None \<Rightarrow> 0 | Some n \<Rightarrow> n)"

text \<open>A candidate leads when it has a vote and no candidate has more; it leads alone
  when every other candidate has fewer.\<close>

definition leads :: "voting_system \<Rightarrow> string \<Rightarrow> bool" where
  "leads vs c \<longleftrightarrow> 0 < tally vs c \<and> (\<forall>c'. tally vs c' \<le> tally vs c)"

definition leads_alone :: "voting_system \<Rightarrow> string \<Rightarrow> bool" where
  "leads_alone vs c \<longleftrightarrow> 0 < tally vs c \<and> (\<forall>c'. c' \<noteq> c \<longrightarrow> tally vs c' < tally vs c)"

definition ex_casts_win :: "cast list" where
  "ex_casts_win = [ex_cast ''Ann'' ''Bob'', ex_cast ''Bob'' ''Cy'', ex_cast ''Ann'' ''Cy'',
     ex_cast ''Zed'' ''Cy'']"

definition ex_casts_tie :: "cast list" where
  "ex_casts_tie = [ex_cast ''Ann'' ''Bob'', ex_cast ''Bob'' ''Cy'', ex_cast ''Cy'' ''Ann'']"

section \<open>Properties of the chat log\<close>

subsection \<open>Identifiers and the stored window\<close>

lemma add_message_counter [simp]:
  "message_counter (fst (add_message i cl)) = message_counter cl + 1"
  by (simp add: add_message_def Let_def notify_subscribers_def)

lemma add_message_id [simp]:
  "message_id (snd (add_message i cl)) = message_counter cl + 1"
  by (simp add: add_message_def Let_def)

lemma add_message_maxlen [simp]:
  "maxlen (fst (add_message i cl)) = maxlen cl"
  by (simp add: add_message_def Let_def notify_subscribers_def)

lemma add_message_messages [simp]:
  "messages (fst (add_message i cl)) =
     deque_append (maxlen cl) (messages cl) (snd (add_message i cl))"
  by (simp add: add_message_def Let_def notify_subscribers_def)

lemma add_message_fields [simp]:
  "sender (snd (add_message i cl)) = in_sender i"
  "content (snd (add_message i cl)) = in_content i"
  "timestamp (snd (add_message i cl)) = in_now i"
  "message_type (snd (add_message i cl)) = in_type i"
  by (simp_all add: add_message_def Let_def)

lemma apply_op_counter:
  "message_counter (fst (apply_op op cl)) = message_counter cl + length (snd (apply_op op cl))"
  by (cases op) (simp_all add: split_beta subscribe_def unsubscribe_def Let_def)

lemma run_ops_counter:
  "message_counter (fst (run_ops ops cl)) = message_counter cl + length (snd (run_ops ops cl))"
  by (induction ops arbitrary: cl) (simp_all add: split_beta apply_op_counter)

lemma apply_op_maxlen [simp]: "maxlen (fst (apply_op op cl)) = maxlen cl"
  by (cases op) (simp_all add: split_beta subscribe_def unsubscribe_def Let_def)

lemma run_ops_maxlen [simp]: "maxlen (fst (run_ops ops cl)) = maxlen cl"
  by (induction ops arbitrary: cl) (simp_all add: split_beta)

lemma apply_op_ids:
  "map message_id (snd (apply_op op cl)) =
     [message_counter cl + 1 ..< message_counter cl + 1 + length (snd (apply_op op cl))]"
  by (cases op) (simp_all add: split_beta)

lemma upt_split: "[a ..< a + n + m] = [a ..< a + n] @ [a + n ..< a + n + m]" for a n m :: nat
  using upt_add_eq_append [of a "a + n" m] by simp

lemma run_ops_ids:
  "map message_id (snd (run_ops ops cl)) =
     [message_counter cl + 1 ..< message_counter cl + 1 + length (snd (run_ops ops cl))]"
proof (induction ops arbitrary: cl)
  case Nil
  show ?case by simp
next
  case (Cons op ops)
  let ?a = "apply_op op cl"
  let ?r = "run_ops ops (fst ?a)"
  let ?c = "message_counter cl + 1"
  have c: "message_counter (fst ?a) + 1 = ?c + length (snd ?a)"
    using apply_op_counter [of op cl] by simp
  have "map message_id (snd (run_ops (op # ops) cl)) =
          map message_id (snd ?a) @ map message_id (snd ?r)"
    by (simp add: split_beta)
  also have "\<dots> = [?c ..< ?c + length (snd ?a)]
        @ [?c + length (snd ?a) ..< ?c + length (snd ?a) + length (snd ?r)]"
    using Cons.IH [of "fst ?a"] apply_op_ids [of op cl] unfolding c by simp
  also have "\<dots> = [?c ..< ?c + length (snd ?a) + length (snd ?r)]"
    by (rule upt_split [symmetric])
  also have "\<dots> = [?c ..< ?c + length (snd (run_ops (op # ops) cl))]"
    by (simp add: split_beta add.assoc)
  finally show ?case .
qed

lemma deque_append_drop:
  assumes "xs = drop (length all - n) all"
  shows "deque_append n xs x = drop (length (all @ [x]) - n) (all @ [x])"
proof (cases "length all < n")
  case True
  with assms show ?thesis by (simp add: deque_append_def Let_def)
next
  case False
  then have len: "length xs = n" using assms by simp
  show ?thesis
  proof (cases n)
    case 0
    with len show ?thesis by (simp add: deque_append_def Let_def)
  next
    case (Suc k)
    with len have ne: "xs \<noteq> []" by auto
    have "deque_append n xs x = tl xs @ [x]"
      using len ne by (simp add: deque_append_def Let_def)
    also have "tl xs = drop (Suc (length all - n)) all"
      using assms by (simp add: tl_drop drop_Suc)
    also have "\<dots> @ [x] = drop (length (all @ [x]) - n) (all @ [x])"
    proof -
      have e: "length (all @ [x]) - n = Suc (length all - n)" using False by simp
      have "Suc (length all - n) \<le> length all" using False Suc by simp
      then show ?thesis unfolding e by simp
    qed
    finally show ?thesis .
  qed
qed

lemma apply_op_window:
  assumes "messages cl = drop (length all - maxlen cl) all"
  shows "messages (fst (apply_op op cl)) =
           drop (length (all @ snd (apply_op op cl)) - maxlen cl) (all @ snd (apply_op op cl))"
proof (cases op)
  case (Add i)
  then show ?thesis using deque_append_drop [OF assms] by (simp add: split_beta)
next
  case Subscribe
  then show ?thesis using assms by (simp add: subscribe_def Let_def)
next
  case (Unsubscribe q)
  then show ?thesis using assms by (simp add: unsubscribe_def)
qed

lemma run_ops_window:
  "messages cl = drop (length all - maxlen cl) all \<Longrightarrow>
   messages (fst (run_ops ops cl)) =
     drop (length (all @ snd (run_ops ops cl)) - maxlen cl) (all @ snd (run_ops ops cl))"
proof (induction ops arbitrary: cl all)
  case Nil
  then show ?case by simp
next
  case (Cons op ops)
  let ?a = "apply_op op cl"
  have "messages (fst ?a) = drop (length (all @ snd ?a) - maxlen (fst ?a)) (all @ snd ?a)"
    using apply_op_window [OF Cons.prems] by simp
  from Cons.IH [OF this] show ?case by (simp add: split_beta)
qed

lemma run_adds_length: "length (snd (run_ops (map Add ins) cl)) = length ins"
  by (induction ins arbitrary: cl) (simp_all add: split_beta)

lemma run_adds_fields:
  "map sender (snd (run_ops (map Add ins) cl)) = map in_sender ins"
  "map content (snd (run_ops (map Add ins) cl)) = map in_content ins"
  by (induction ins arbitrary: cl) (simp_all add: split_beta)

text \<open>
  Claim C1. On a chat log of capacity \<open>N\<close>, the \<open>k\<close>-th call of \<^verbatim>\<open>add_message\<close>
  returns the message with identifier \<open>k\<close> (identifiers run 1, 2, 3, ... without a gap, in
  call order, and carry the sender and content given); the stored window is the last
  \<open>N\<close> messages returned (all of them while at most \<open>N\<close> were appended), each with the
  identifier it was given, and no call fails. With capacity 3, appending A, B, C, D
  leaves B, C, D stored under the identifiers 2, 3, 4, the identifiers handed out being
  1, 2, 3, 4.
\<close>

theorem chat_log_ids_gapless_window_bounded:
  "map message_id (snd (run_ops (map Add ins) (init_chat_log N t0))) = [1 ..< 1 + length ins]
   \<and> map content (snd (run_ops (map Add ins) (init_chat_log N t0))) = map in_content ins
   \<and> map sender (snd (run_ops (map Add ins) (init_chat_log N t0))) = map in_sender ins
   \<and> messages (fst (run_ops (map Add ins) (init_chat_log N t0))) =
       drop (length ins - N) (snd (run_ops (map Add ins) (init_chat_log N t0)))
   \<and> length (messages (fst (run_ops (map Add ins) (init_chat_log N t0)))) = min (length ins) N
   \<and> map content (messages (fst (run_ops (map Add [a, b, c, d]) (init_chat_log 3 t0)))) =
       map in_content [b, c, d]
   \<and> map message_id (messages (fst (run_ops (map Add [a, b, c, d]) (init_chat_log 3 t0)))) =
       [2, 3, 4]
   \<and> map message_id (snd (run_ops (map Add [a, b, c, d]) (init_chat_log 3 t0))) = [1, 2, 3, 4]"
proof -
  have ids: "map message_id (snd (run_ops (map Add xs) (init_chat_log M t0))) =
      [1 ..< 1 + length xs]" for xs M
    using run_ops_ids [of "map Add xs" "init_chat_log M t0"]
    by (simp add: run_adds_length init_chat_log_def)
  have win: "messages (fst (run_ops (map Add xs) (init_chat_log M t0))) =
      drop (length xs - M) (snd (run_ops (map Add xs) (init_chat_log M t0)))" for xs M
    using run_ops_window [of "init_chat_log M t0" "[]" "map Add xs"]
    by (simp add: run_adds_length init_chat_log_def)
  have len: "length (messages (fst (run_ops (map Add ins) (init_chat_log N t0)))) =
      min (length ins) N"
    unfolding win by (simp add: run_adds_length)
  let ?e = "run_ops (map Add [a, b, c, d]) (init_chat_log 3 t0)"
  have r1: "[1 ..< 1 + length [a, b, c, d]] = [1, 2, 3, 4::nat]"
    by (simp add: upt_rec)
  have r2: "length [a, b, c, d] - 3 = (1::nat)"
    by simp
  have ex3: "map message_id (snd ?e) = [1, 2, 3, 4]"
    using ids [of "[a, b, c, d]" 3] unfolding r1 .
  have w4: "messages (fst ?e) = drop 1 (snd ?e)"
    using win [of "[a, b, c, d]" 3] unfolding r2 .
  have "map content (messages (fst ?e)) = drop 1 (map content (snd ?e))"
    unfolding w4 by (rule drop_map [symmetric])
  also have "\<dots> = drop 1 (map in_content [a, b, c, d])"
    by (simp only: run_adds_fields)
  also have "\<dots> = map in_content [b, c, d]"
    by simp
  finally have ex1: "map content (messages (fst ?e)) = map in_content [b, c, d]" .
  have "map message_id (messages (fst ?e)) = drop 1 (map message_id (snd ?e))"
    unfolding w4 by (rule drop_map [symmetric])
  also have "\<dots> = [2, 3, 4]"
    unfolding ex3 by simp
  finally have ex2: "map message_id (messages (fst ?e)) = [2, 3, 4]" .
  from ids [of ins N] run_adds_fields [of ins "init_chat_log N t0"] win [of ins N] len
    ex1 ex2 ex3
  show ?thesis by blast
qed

subsection \<open>Subscriptions\<close>

lemma put_all_closed [simp]: "q_closed (put_all qs m f q) = q_closed (f q)"
  by (induction qs arbitrary: f) simp_all

lemma put_all_items:
  "distinct qs \<Longrightarrow>
   q_items (put_all qs m f q) = q_items (f q) @ (if q \<in> set qs then [m] else [])"
  by (induction qs arbitrary: f) auto

lemma log_inv_init: "log_inv (init_chat_log N t0)"
  by (simp add: log_inv_def init_chat_log_def empty_queue_def)

lemma filter_open: "log_inv cl \<Longrightarrow> filter (\<lambda>q. \<not> q_closed (queues cl q)) (subscribers cl) = subscribers cl"
  by (simp add: log_inv_def)

lemma add_message_subscribers:
  "log_inv cl \<Longrightarrow> subscribers (fst (add_message i cl)) = subscribers cl"
  by (simp add: add_message_def Let_def notify_subscribers_def log_inv_def)

lemma add_message_next_queue [simp]:
  "next_queue (fst (add_message i cl)) = next_queue cl"
  by (simp add: add_message_def Let_def notify_subscribers_def)

lemma add_message_items:
  "log_inv cl \<Longrightarrow>
   q_items (queues (fst (add_message i cl)) q) =
     q_items (queues cl q) @ (if q \<in> set (subscribers cl) then [snd (add_message i cl)] else [])"
  by (simp add: add_message_def Let_def notify_subscribers_def log_inv_def put_all_items)

lemma add_message_closed:
  "q_closed (queues (fst (add_message i cl)) q) = q_closed (queues cl q)"
  by (simp add: add_message_def Let_def notify_subscribers_def)

lemma log_inv_apply_op: "log_inv cl \<Longrightarrow> log_inv (fst (apply_op op cl))"
proof (cases op)
  case (Add i)
  assume "log_inv cl"
  then show ?thesis using Add
    by (simp add: log_inv_def split_beta add_message_subscribers add_message_closed)
next
  case Subscribe
  assume "log_inv cl"
  then show ?thesis using Subscribe
    by (auto simp: log_inv_def subscribe_def Let_def empty_queue_def list_all_iff)
next
  case (Unsubscribe q)
  assume "log_inv cl"
  then show ?thesis using Unsubscribe
    by (auto simp: log_inv_def unsubscribe_def list_all_iff)
qed

lemma log_inv_run_ops: "log_inv cl \<Longrightarrow> log_inv (fst (run_ops ops cl))"
  by (induction ops arbitrary: cl) (simp_all add: split_beta log_inv_apply_op)

lemma apply_op_next_queue: "next_queue cl \<le> next_queue (fst (apply_op op cl))"
  by (cases op) (simp_all add: split_beta subscribe_def unsubscribe_def Let_def)

lemma apply_op_items:
  assumes "log_inv cl" "q < next_queue cl"
  shows "q_items (queues (fst (apply_op op cl)) q) =
     q_items (queues cl q) @ (if q \<in> set (subscribers cl) then snd (apply_op op cl) else [])"
proof (cases op)
  case (Add i)
  then show ?thesis using add_message_items [OF assms(1)] by (simp add: split_beta)
next
  case Subscribe
  then show ?thesis using assms(2) by (simp add: subscribe_def Let_def)
next
  case (Unsubscribe q')
  then show ?thesis by (simp add: unsubscribe_def)
qed

lemma apply_op_stays_subscribed:
  assumes "log_inv cl" "q \<in> set (subscribers cl)" "op \<noteq> Unsubscribe q"
  shows "q \<in> set (subscribers (fst (apply_op op cl)))"
proof (cases op)
  case (Add i)
  then show ?thesis using assms by (simp add: split_beta add_message_subscribers)
next
  case Subscribe
  then show ?thesis using assms by (simp add: subscribe_def Let_def)
next
  case (Unsubscribe q')
  then show ?thesis using assms by (auto simp: unsubscribe_def)
qed

lemma apply_op_stays_unsubscribed:
  assumes "log_inv cl" "q < next_queue cl" "q \<notin> set (subscribers cl)"
  shows "q \<notin> set (subscribers (fst (apply_op op cl)))"
proof (cases op)
  case (Add i)
  then show ?thesis using assms by (simp add: split_beta add_message_subscribers)
next
  case Subscribe
  then show ?thesis using assms by (simp add: subscribe_def Let_def)
next
  case (Unsubscribe q')
  then show ?thesis using assms by (auto simp: unsubscribe_def dest: notin_set_remove1)
qed

lemma run_ops_subscribed_items:
  "log_inv cl \<Longrightarrow> q \<in> set (subscribers cl) \<Longrightarrow> Unsubscribe q \<notin> set ops \<Longrightarrow>
   q_items (queues (fst (run_ops ops cl)) q) = q_items (queues cl q) @ snd (run_ops ops cl)"
proof (induction ops arbitrary: cl)
  case Nil
  then show ?case by simp
next
  case (Cons op ops)
  let ?a = "apply_op op cl"
  have lt: "q < next_queue cl"
    using Cons.prems(1,2) by (auto simp: log_inv_def list_all_iff)
  have 1: "log_inv (fst ?a)" using Cons.prems(1) by (rule log_inv_apply_op)
  have 2: "q \<in> set (subscribers (fst ?a))"
    using Cons.prems by (intro apply_op_stays_subscribed) auto
  have 3: "Unsubscribe q \<notin> set ops" using Cons.prems(3) by simp
  have "q_items (queues (fst ?a) q) = q_items (queues cl q) @ snd ?a"
    using apply_op_items [OF Cons.prems(1) lt, of op] Cons.prems(2) by simp
  with Cons.IH [OF 1 2 3] show ?case by (simp add: split_beta)
qed

lemma run_ops_unsubscribed_items:
  "log_inv cl \<Longrightarrow> q < next_queue cl \<Longrightarrow> q \<notin> set (subscribers cl) \<Longrightarrow>
   q_items (queues (fst (run_ops ops cl)) q) = q_items (queues cl q)
   \<and> q \<notin> set (subscribers (fst (run_ops ops cl)))"
proof (induction ops arbitrary: cl)
  case Nil
  then show ?case by simp
next
  case (Cons op ops)
  let ?a = "apply_op op cl"
  have 1: "log_inv (fst ?a)" using Cons.prems(1) by (rule log_inv_apply_op)
  have 2: "q < next_queue (fst ?a)"
    using Cons.prems(2) apply_op_next_queue [of cl op] by simp
  have 3: "q \<notin> set (subscribers (fst ?a))"
    using Cons.prems by (rule apply_op_stays_unsubscribed)
  have "q_items (queues (fst ?a) q) = q_items (queues cl q)"
    using apply_op_items [OF Cons.prems(1,2), of op] Cons.prems(3) by simp
  with Cons.IH [OF 1 2 3] show ?case by (simp add: split_beta)
qed

lemma run_ops_items_subset:
  "log_inv cl \<Longrightarrow> q < next_queue cl \<Longrightarrow>
   set (q_items (queues (fst (run_ops ops cl)) q)) \<subseteq>
     set (q_items (queues cl q)) \<union> set (snd (run_ops ops cl))"
proof (induction ops arbitrary: cl)
  case Nil
  then show ?case by simp
next
  case (Cons op ops)
  let ?a = "apply_op op cl"
  have 1: "log_inv (fst ?a)" using Cons.prems(1) by (rule log_inv_apply_op)
  have 2: "q < next_queue (fst ?a)"
    using Cons.prems(2) apply_op_next_queue [of cl op] by simp
  have "set (q_items (queues (fst ?a) q)) \<subseteq> set (q_items (queues cl q)) \<union> set (snd ?a)"
    using apply_op_items [OF Cons.prems(1,2), of op] by auto
  with Cons.IH [OF 1 2] show ?case by (auto simp: split_beta)
qed

lemma run_ops_ids_above:
  "m \<in> set (snd (run_ops ops cl)) \<Longrightarrow> message_counter cl < message_id m"
proof -
  assume "m \<in> set (snd (run_ops ops cl))"
  then have "message_id m \<in> set (map message_id (snd (run_ops ops cl)))" by simp
  then show ?thesis unfolding run_ops_ids by auto
qed

lemma run_ops_ids_below:
  "m \<in> set (snd (run_ops ops cl)) \<Longrightarrow> message_id m \<le> message_counter (fst (run_ops ops cl))"
proof -
  assume "m \<in> set (snd (run_ops ops cl))"
  then have "message_id m \<in> set (map message_id (snd (run_ops ops cl)))" by simp
  then show ?thesis unfolding run_ops_ids run_ops_counter by auto
qed

text \<open>
  Claim C2. Let \<open>q\<close> be the queue returned by \<^verbatim>\<open>subscribe\<close> on a log that has gone through
  any history \<open>ops1\<close>. The queue starts empty and never holds a message appended before
  the call (no replay). After any later history \<open>ops2\<close> that does not unsubscribe \<open>q\<close>, the
  queue has received exactly the messages appended by \<open>ops2\<close>, in append order, each once.
  After \<^verbatim>\<open>unsubscribe(q)\<close> the queue is not in the subscriber list, and whatever happens
  next (\<open>ops3\<close>) it stays out and receives nothing more.
\<close>

theorem subscription_delivery:
  assumes "cl = fst (run_ops ops1 (init_chat_log N t0))"
    and "cl1 = fst (subscribe cl)" and "q = snd (subscribe cl)"
    and "cl2 = fst (run_ops ops2 cl1)"
    and "cl3 = fst (run_ops ops3 (unsubscribe q cl2))"
  shows "q_items (queues cl1 q) = []
    \<and> set (q_items (queues cl2 q)) \<inter> set (snd (run_ops ops1 (init_chat_log N t0))) = {}
    \<and> (Unsubscribe q \<notin> set ops2 \<longrightarrow> q_items (queues cl2 q) = snd (run_ops ops2 cl1))
    \<and> q \<notin> set (subscribers (unsubscribe q cl2))
    \<and> q \<notin> set (subscribers cl3)
    \<and> q_items (queues cl3 q) = q_items (queues cl2 q)"
proof -
  have inv: "log_inv cl" unfolding assms(1) by (intro log_inv_run_ops log_inv_init)
  have inv1: "log_inv cl1" unfolding assms(2)
    using log_inv_apply_op [OF inv, of Subscribe] by simp
  have q: "q = next_queue cl" unfolding assms(3) by (simp add: subscribe_def Let_def)
  have sub1: "q \<in> set (subscribers cl1)" and lt1: "q < next_queue cl1"
    and cnt1: "message_counter cl1 = message_counter cl"
    unfolding assms(2) q by (simp_all add: subscribe_def Let_def)
  have e: "q_items (queues cl1 q) = []"
    unfolding assms(2) q by (simp add: subscribe_def Let_def empty_queue_def)
  have inv2: "log_inv cl2" unfolding assms(4) using inv1 by (rule log_inv_run_ops)
  have lt2: "q < next_queue cl2"
  proof -
    have "next_queue c \<le> next_queue (fst (run_ops ops c))" for c ops
      by (induction ops arbitrary: c)
        (auto simp: split_beta intro: order_trans [OF apply_op_next_queue])
    from this [of cl1 ops2] lt1 show ?thesis unfolding assms(4) by simp
  qed
  have "set (q_items (queues cl2 q)) \<subseteq> set (snd (run_ops ops2 cl1))"
    using run_ops_items_subset [OF inv1 lt1, of ops2] e unfolding assms(4) by simp
  moreover have "message_counter cl < message_id m" if "m \<in> set (snd (run_ops ops2 cl1))" for m
    using run_ops_ids_above [OF that] cnt1 by simp
  moreover have "message_id m \<le> message_counter cl"
    if "m \<in> set (snd (run_ops ops1 (init_chat_log N t0)))" for m
    using run_ops_ids_below [OF that] assms(1) by simp
  ultimately have p2: "set (q_items (queues cl2 q)) \<inter> set (snd (run_ops ops1 (init_chat_log N t0))) = {}"
    by force
  have p3: "q_items (queues cl2 q) = snd (run_ops ops2 cl1)" if "Unsubscribe q \<notin> set ops2"
    using run_ops_subscribed_items [OF inv1 sub1 that] e unfolding assms(4) by simp
  have inv3: "log_inv (unsubscribe q cl2)"
    using log_inv_apply_op [OF inv2, of "Unsubscribe q"] by simp
  have un: "q \<notin> set (subscribers (unsubscribe q cl2))"
    using inv2 by (auto simp: unsubscribe_def log_inv_def)
  have lt3: "q < next_queue (unsubscribe q cl2)"
    using lt2 by (simp add: unsubscribe_def)
  from run_ops_unsubscribed_items [OF inv3 lt3 un, of ops3]
  have p5: "q \<notin> set (subscribers cl3)" and p6: "q_items (queues cl3 q) = q_items (queues cl2 q)"
    unfolding assms(5) by (simp_all add: unsubscribe_def)
  from e p2 p3 un p5 p6 show ?thesis by blast
qed

theorem subscription_delivery_witness:
  "Unsubscribe (snd (subscribe (fst (run_ops [Add (ex_add ''Alice'' ''A'')] (init_chat_log 3 0)))))
      \<notin> set [Add (ex_add ''Bob'' ''B''), Add (ex_add ''Carol'' ''C'')]
   \<and> map content (q_items (queues
        (fst (run_ops [Add (ex_add ''Bob'' ''B''), Add (ex_add ''Carol'' ''C'')]
           (fst (subscribe (fst (run_ops [Add (ex_add ''Alice'' ''A'')] (init_chat_log 3 0)))))))
        (snd (subscribe (fst (run_ops [Add (ex_add ''Alice'' ''A'')] (init_chat_log 3 0)))))))
      = [''B'', ''C'']"
proof -
  let ?cl = "fst (run_ops [Add (ex_add ''Alice'' ''A'')] (init_chat_log 3 0))"
  let ?ops2 = "[Add (ex_add ''Bob'' ''B''), Add (ex_add ''Carol'' ''C'')]"
  have h: "Unsubscribe (snd (subscribe ?cl)) \<notin> set ?ops2" by simp
  have "q_items (queues (fst (run_ops ?ops2 (fst (subscribe ?cl)))) (snd (subscribe ?cl))) =
      snd (run_ops ?ops2 (fst (subscribe ?cl)))"
    using subscription_delivery [OF refl refl refl refl refl,
        of "[Add (ex_add ''Alice'' ''A'')]" 3 0 ?ops2 "[]"] h
    by blast
  moreover have "map content (snd (run_ops ?ops2 (fst (subscribe ?cl)))) = [''B'', ''C'']"
    using run_adds_fields(2) [of "[ex_add ''Bob'' ''B'', ex_add ''Carol'' ''C'']" "fst (subscribe ?cl)"]
    by (simp only: list.map ex_add_def add_input.simps)
  ultimately show ?thesis using h by (simp only: simp_thms)
qed

section \<open>Properties of the autonomous bot\<close>

subsection \<open>What a cycle changes\<close>

lemma bot_update_stats_fields [simp]:
  "config (bot_update_stats rt ok b) = config b"
  "is_monitoring (bot_update_stats rt ok b) = is_monitoring b"
  "last_response_time (bot_update_stats rt ok b) = last_response_time b"
  "total_responses (bot_update_stats rt ok b) = total_responses b"
  "current_cooldown (bot_update_stats rt ok b) = current_cooldown b"
  "response_urgency (bot_update_stats rt ok b) = response_urgency b"
  "missed_opportunities (bot_update_stats rt ok b) = missed_opportunities b"
  "conversation_energy (bot_update_stats rt ok b) = conversation_energy b"
  "burning_questions (bot_update_stats rt ok b) = burning_questions b"
  by (simp_all add: bot_update_stats_def Let_def)

lemma gate_rejects_fields [simp]:
  "config (gate_rejects b) = config b"
  "is_monitoring (gate_rejects b) = is_monitoring b"
  "last_response_time (gate_rejects b) = last_response_time b"
  "total_responses (gate_rejects b) = total_responses b"
  "current_cooldown (gate_rejects b) = current_cooldown b"
  by (simp_all add: gate_rejects_def)

lemma should_respond_fields [simp]:
  "config (snd (should_respond_autonomously e m h b)) = config b"
  "is_monitoring (snd (should_respond_autonomously e m h b)) = is_monitoring b"
  "last_response_time (snd (should_respond_autonomously e m h b)) = last_response_time b"
  "total_responses (snd (should_respond_autonomously e m h b)) = total_responses b"
  "current_cooldown (snd (should_respond_autonomously e m h b)) = current_cooldown b"
  by (simp_all add: should_respond_autonomously_def Let_def)

lemma generate_fail:
  assumes "gen_fails e"
  shows "snd (generate_autonomous_response e (b, cl)) = None"
    and "snd (fst (generate_autonomous_response e (b, cl))) = fst (run_ops (during e) cl)"
    and "fst (fst (generate_autonomous_response e (b, cl))) =
          (case generated e of
             GenRaised \<Rightarrow> b\<lparr>bstats := (bstats b)\<lparr>errors := errors (bstats b) + 1\<rparr>\<rparr>
           | GenText r \<Rightarrow> b\<lparr>bstats := (bstats b)\<lparr>passes_made := passes_made (bstats b) + 1\<rparr>\<rparr>)"
  using assms
  by (auto simp: gen_fails_def generate_autonomous_response_def generate_body_def Let_def
      bot_update_stats_def split: gen_result.splits)

lemma generate_success:
  assumes "\<not> gen_fails e"
  shows "\<exists>m. snd (generate_autonomous_response e (b, cl)) = Some m
           \<and> timestamp m = now_post e \<and> sender m = name (config b)"
    and "last_response_time (fst (fst (generate_autonomous_response e (b, cl)))) = now_done e"
    and "total_responses (fst (fst (generate_autonomous_response e (b, cl)))) = total_responses b + 1"
    and "current_cooldown (fst (fst (generate_autonomous_response e (b, cl)))) =
           recompute_cooldown (config b) (total_responses b + 1)"
  using assms
  by (auto simp: gen_fails_def generate_autonomous_response_def generate_body_def Let_def
      split_beta split: gen_result.splits)

lemma generate_fields [simp]:
  "config (fst (fst (generate_autonomous_response e (b, cl)))) = config b"
  "is_monitoring (fst (fst (generate_autonomous_response e (b, cl)))) = is_monitoring b"
  by (auto simp: generate_autonomous_response_def generate_body_def Let_def
      split_beta split: gen_result.splits)


lemma generate_ok: "cycle_ok e b (generate_autonomous_response e (b, cl))"
proof (cases "gen_fails e")
  case True
  from generate_fail [OF True, of b cl] show ?thesis
    by (auto simp: cycle_ok_def split: gen_result.splits)
next
  case False
  from generate_success [OF False, of b cl] show ?thesis
    by (auto simp: cycle_ok_def)
qed

lemma cycle_ok_cong:
  assumes "config b' = config b" "is_monitoring b' = is_monitoring b"
    "last_response_time b' = last_response_time b" "current_cooldown b' = current_cooldown b"
    "total_responses b' = total_responses b"
  shows "cycle_ok e b' res = cycle_ok e b res"
  using assms by (simp add: cycle_ok_def split: option.splits)

lemma cycle_ok_stats:
  "cycle_ok e b ((b1, cl1), r) \<Longrightarrow> cycle_ok e b ((b1\<lparr>bstats := st\<rparr>, cl1), r)"
  by (simp add: cycle_ok_def split: option.splits)

lemma cycle_ok_none:
  assumes "config b' = config b" "is_monitoring b' = is_monitoring b"
    "last_response_time b' = last_response_time b" "current_cooldown b' = current_cooldown b"
    "total_responses b' = total_responses b"
  shows "cycle_ok e b ((b', cl'), None)"
  using assms by (simp add: cycle_ok_def)

lemma process_ok: "cycle_ok e b (process_new_message e m (b, cl))"
proof -
  let ?sr = "should_respond_autonomously e m (messages cl) b"
  have g: "cycle_ok e b (generate_autonomous_response e (snd ?sr, cl))"
    using generate_ok [of e "snd ?sr" cl] by (simp add: cycle_ok_cong [of "snd ?sr" b])
  show ?thesis
    using g by (simp add: process_new_message_def Let_def split_beta cycle_ok_none)
qed

lemma spontaneous_ok: "cycle_ok e b (check_spontaneous_contribution e (b, cl))"
proof -
  obtain b1 cl1 r where g: "generate_autonomous_response e (b, cl) = ((b1, cl1), r)"
    by (metis surj_pair)
  have "cycle_ok e b ((b1, cl1), r)" using generate_ok [of e b cl] g by simp
  then show ?thesis
    by (simp add: check_spontaneous_contribution_def Let_def g cycle_ok_none cycle_ok_stats)
qed

lemma monitor_cycle_ok: "cycle_ok e b (monitor_cycle w e (b, cl))"
  by (cases w) (simp_all add: monitor_cycle_def process_ok spontaneous_ok cycle_ok_none)

lemma process_gate:
  "snd (process_new_message e m (b, cl)) = Some x \<Longrightarrow> \<not> in_cooldown e b"
  by (auto simp: process_new_message_def Let_def split: if_splits)

lemma spontaneous_gate:
  "snd (check_spontaneous_contribution e (b, cl)) = Some x \<Longrightarrow> \<not> in_cooldown e b"
  by (auto simp: check_spontaneous_contribution_def Let_def split: if_splits)

lemma monitor_cycle_gate:
  "snd (monitor_cycle w e (b, cl)) = Some x \<Longrightarrow> \<not> in_cooldown e b"
  by (cases w) (auto simp: monitor_cycle_def dest: process_gate spontaneous_gate split: if_splits)

subsection \<open>The loop and the spacing of its actions\<close>

lemma monitor_loop_stopped [simp]:
  "\<not> is_monitoring (fst s) \<Longrightarrow> monitor_loop cs s = (s, [])"
  by (cases cs) auto

lemma monitor_loop_Cons:
  "is_monitoring (fst s) \<Longrightarrow>
   monitor_loop (c # rest) s =
     (fst (monitor_loop rest (fst (loop_step c s))),
      action_of (fst s) (fst (fst (loop_step c s))) (snd (loop_step c s))
      @ snd (monitor_loop rest (fst (loop_step c s))))"
  by (simp add: split_beta Let_def)

declare monitor_loop.simps(2) [simp del]

lemma loop_step_ok: "cycle_ok (snd (snd c)) (fst s) (loop_step c s)"
  by (cases c) (simp add: loop_step_def monitor_cycle_ok)

lemma loop_step_gate: "snd (loop_step c s) = Some x \<Longrightarrow> \<not> in_cooldown (snd (snd c)) (fst s)"
  by (cases c) (auto simp: loop_step_def dest: monitor_cycle_gate)

lemma actions_after_gates:
  "clock_ok cs \<Longrightarrow> list_all (\<lambda>c. g \<le> now_gate (snd (snd c))) cs \<Longrightarrow>
   list_all (\<lambda>a. g \<le> timestamp (posted a)) (snd (monitor_loop cs s))"
proof (induction cs arbitrary: s)
  case Nil
  show ?case by simp
next
  case (Cons c rest)
  show ?case
  proof (cases "is_monitoring (fst s)")
    case False
    then show ?thesis by simp
  next
    case True
    have rest: "list_all (\<lambda>a. g \<le> timestamp (posted a)) (snd (monitor_loop rest (fst (loop_step c s))))"
      using Cons.IH Cons.prems by simp
    have "g \<le> timestamp m" if "snd (loop_step c s) = Some m" for m
      using loop_step_ok [of c s] that Cons.prems by (simp add: cycle_ok_def)
    with rest show ?thesis
      by (simp add: monitor_loop_Cons [OF True] action_of_def split: option.splits)
  qed
qed

lemma actions_after_cooldown:
  "clock_ok cs \<Longrightarrow>
   list_all (\<lambda>a. last_response_time (fst s) + current_cooldown (fst s) \<le> timestamp (posted a))
     (snd (monitor_loop cs s))"
proof (induction cs arbitrary: s)
  case Nil
  show ?case by simp
next
  case (Cons c rest)
  let ?e = "snd (snd c)"
  let ?s1 = "fst (loop_step c s)"
  let ?g = "last_response_time (fst s) + current_cooldown (fst s)"
  show ?case
  proof (cases "is_monitoring (fst s)")
    case False
    then show ?thesis by simp
  next
    case True
    have ck: "clock_ok rest" using Cons.prems by simp
    show ?thesis
    proof (cases "snd (loop_step c s)")
      case None
      then have "last_response_time (fst ?s1) + current_cooldown (fst ?s1) = ?g"
        using loop_step_ok [of c s] by (simp add: cycle_ok_def)
      with Cons.IH [OF ck, of ?s1] None show ?thesis
        by (simp add: monitor_loop_Cons [OF True] action_of_def)
    next
      case (Some m)
      have gate: "?g \<le> now_gate ?e"
        using loop_step_gate [OF Some] by (simp add: in_cooldown_def)
      have tm: "timestamp m = now_post ?e"
        using loop_step_ok [of c s] Some by (simp add: cycle_ok_def)
      have "list_all (\<lambda>c'. ?g \<le> now_gate (snd (snd c'))) rest"
        using Cons.prems gate by (auto simp: list_all_iff)
      from actions_after_gates [OF ck this, of ?s1]
      show ?thesis using Some tm gate Cons.prems
        by (simp add: monitor_loop_Cons [OF True] action_of_def)
    qed
  qed
qed

lemma actions_spaced:
  "clock_ok cs \<Longrightarrow> spaced cooldown_after (snd (monitor_loop cs s))"
proof (induction cs arbitrary: s)
  case Nil
  show ?case by simp
next
  case (Cons c rest)
  let ?e = "snd (snd c)"
  let ?s1 = "fst (loop_step c s)"
  show ?case
  proof (cases "is_monitoring (fst s)")
    case False
    then show ?thesis by simp
  next
    case True
    have ck: "clock_ok rest" using Cons.prems by simp
    note IH = Cons.IH [OF ck, of ?s1]
    show ?thesis
    proof (cases "snd (loop_step c s)")
      case None
      with IH show ?thesis by (simp add: monitor_loop_Cons [OF True] action_of_def)
    next
      case (Some m)
      have ok: "timestamp m = now_post ?e" "last_response_time (fst ?s1) = now_done ?e"
        using loop_step_ok [of c s] Some by (simp_all add: cycle_ok_def)
      have "now_post ?e \<le> now_done ?e" using Cons.prems by simp
      with actions_after_cooldown [OF ck, of ?s1] ok
      have "list_all (\<lambda>a'. current_cooldown (fst ?s1) \<le> timestamp (posted a') - timestamp m)
              (snd (monitor_loop rest ?s1))"
        by (auto simp: list_all_iff)
      with IH Some show ?thesis by (simp add: monitor_loop_Cons [OF True] action_of_def)
    qed
  qed
qed

lemma recompute_cooldown_mono: "n \<le> m \<Longrightarrow> recompute_cooldown cfg n \<le> recompute_cooldown cfg m"
  by (auto simp: recompute_cooldown_def min_def max_def)

lemma loop_step_inv: "cooldown_inv (fst s) \<Longrightarrow> cooldown_inv (fst (fst (loop_step c s)))"
  using loop_step_ok [of c s]
  by (auto simp: cycle_ok_def cooldown_inv_def split: option.splits)

lemma loop_step_cooldown_mono:
  "cooldown_inv (fst s) \<Longrightarrow> current_cooldown (fst s) \<le> current_cooldown (fst (fst (loop_step c s)))"
  using loop_step_ok [of c s] recompute_cooldown_mono [of "total_responses (fst s)" "total_responses (fst s) + 1" "config (fst s)"]
  by (auto simp: cycle_ok_def cooldown_inv_def split: option.splits)

lemma actions_cooldown_grows:
  "cooldown_inv (fst s) \<Longrightarrow>
   list_all (\<lambda>a. cooldown_before a \<le> cooldown_after a) (snd (monitor_loop cs s))"
proof (induction cs arbitrary: s)
  case Nil
  show ?case by simp
next
  case (Cons c rest)
  show ?case
  proof (cases "is_monitoring (fst s)")
    case False
    then show ?thesis by simp
  next
    case True
    from Cons.IH [OF loop_step_inv [OF Cons.prems, of c]] loop_step_cooldown_mono [OF Cons.prems, of c]
    show ?thesis by (simp add: monitor_loop_Cons [OF True] action_of_def split: option.splits)
  qed
qed

lemma spaced_weaken:
  "spaced f as \<Longrightarrow> list_all (\<lambda>a. g a \<le> f a) as \<Longrightarrow> spaced g as"
  by (induction as) (auto simp: list_all_iff)

lemma actions_own:
  "list_all (\<lambda>a. sender (posted a) = name (config (fst s))) (snd (monitor_loop cs s))"
proof (induction cs arbitrary: s)
  case Nil
  show ?case by simp
next
  case (Cons c rest)
  show ?case
  proof (cases "is_monitoring (fst s)")
    case False
    then show ?thesis by simp
  next
    case True
    from Cons.IH [of "fst (loop_step c s)"] loop_step_ok [of c s]
    show ?thesis
      by (simp add: monitor_loop_Cons [OF True] action_of_def cycle_ok_def split: option.splits)
  qed
qed

text \<open>
  Claim C3. When a message from another sender arrives while
  \<open>now - last_response_time < current_cooldown\<close>, the cycle posts nothing and leaves the
  chat log alone; it adds exactly one to \<open>missed_opportunities\<close> and 0.1 to
  \<open>response_urgency\<close>, and changes nothing else. Consequently, over any run of the
  monitoring loop whose clock readings never go back, any two posts of the bot lie at
  least the cooldown set by the earlier one apart, and also at least the cooldown in
  force just before the earlier one when the run starts from a bot whose cooldown is the
  one computed from its count of responses (as it is after construction). The actions
  counted are those of the monitoring loop, which all carry the bot's name.
\<close>

theorem cooldown_gate_and_spacing:
  assumes "clock_ok cycles"
  shows "(now_gate e - last_response_time b < current_cooldown b \<and> sender m \<noteq> name (config b) \<longrightarrow>
            monitor_cycle (Received m) e (b, cl) =
              ((b\<lparr>missed_opportunities := missed_opportunities b + 1,
                   response_urgency := response_urgency b + 0.1\<rparr>, cl), None)
            \<and> response_urgency b < response_urgency (fst (fst (monitor_cycle (Received m) e (b, cl)))))
    \<and> spaced cooldown_after (snd (monitor_loop cycles s))
    \<and> (cooldown_inv (fst s) \<longrightarrow> spaced cooldown_before (snd (monitor_loop cycles s)))
    \<and> list_all (\<lambda>a. sender (posted a) = name (config (fst s))) (snd (monitor_loop cycles s))"
proof -
  have gate: "monitor_cycle (Received m) e (b, cl) =
      ((b\<lparr>missed_opportunities := missed_opportunities b + 1,
           response_urgency := response_urgency b + 0.1\<rparr>, cl), None)"
    if "now_gate e - last_response_time b < current_cooldown b" "sender m \<noteq> name (config b)"
    using that
    by (simp add: monitor_cycle_def process_new_message_def in_cooldown_def gate_rejects_def)
  have sp: "spaced cooldown_after (snd (monitor_loop cycles s))"
    using assms by (rule actions_spaced)
  have sb: "spaced cooldown_before (snd (monitor_loop cycles s))" if "cooldown_inv (fst s)"
    using spaced_weaken [OF sp actions_cooldown_grows [OF that]] .
  have own: "list_all (\<lambda>a. sender (posted a) = name (config (fst s))) (snd (monitor_loop cycles s))"
    by (rule actions_own)
  from gate sp sb own show ?thesis by simp
qed

theorem cooldown_gate_and_spacing_witness:
  "clock_ok ex_cycles
   \<and> now_gate (ex_env 3 GenRaised) - last_response_time ex_bot < current_cooldown ex_bot
   \<and> sender (ex_msg ''Socrates?'') \<noteq> name (config ex_bot)
   \<and> cooldown_inv ex_bot
   \<and> monitor_cycle (Received (ex_msg ''Socrates?'')) (ex_env 3 GenRaised)
         (ex_bot, init_chat_log 1000 0) =
       ((ex_bot\<lparr>missed_opportunities := missed_opportunities ex_bot + 1,
                response_urgency := response_urgency ex_bot + 0.1\<rparr>, init_chat_log 1000 0), None)
   \<and> spaced cooldown_after (snd (monitor_loop ex_cycles (ex_bot, init_chat_log 1000 0)))
   \<and> spaced cooldown_before (snd (monitor_loop ex_cycles (ex_bot, init_chat_log 1000 0)))
   \<and> map (\<lambda>a. (timestamp (posted a), cooldown_after a))
         (snd (monitor_loop ex_cycles (ex_bot, init_chat_log 1000 0))) = [(101, 5.5), (111, 6)]"
proof -
  have h1: "clock_ok ex_cycles" by code_simp
  have h2: "now_gate (ex_env 3 GenRaised) - last_response_time ex_bot < current_cooldown ex_bot"
    by code_simp
  have h3: "sender (ex_msg ''Socrates?'') \<noteq> name (config ex_bot)" by code_simp
  have h4: "cooldown_inv (fst (ex_bot, init_chat_log 1000 0))" by code_simp
  have run: "map (\<lambda>a. (timestamp (posted a), cooldown_after a))
         (snd (monitor_loop ex_cycles (ex_bot, init_chat_log 1000 0))) = [(101, 5.5), (111, 6)]"
    by code_simp
  from cooldown_gate_and_spacing [OF h1, of "ex_env 3 GenRaised" ex_bot "ex_msg ''Socrates?''"
      "init_chat_log 1000 0" "(ex_bot, init_chat_log 1000 0)"] h1 h2 h3 h4 run
  show ?thesis by simp
qed

subsection \<open>Failed generations and the cooldown\<close>

lemma loop_step_monitoring [simp]:
  "is_monitoring (fst (fst (loop_step c s))) = is_monitoring (fst s)"
  using loop_step_ok [of c s] by (simp add: cycle_ok_def)

lemma loop_step_config [simp]:
  "config (fst (fst (loop_step c s))) = config (fst s)"
  using loop_step_ok [of c s] by (simp add: cycle_ok_def)

lemma monitor_loop_frame:
  "is_monitoring (fst (fst (monitor_loop cs s))) = is_monitoring (fst s)
   \<and> config (fst (fst (monitor_loop cs s))) = config (fst s)"
proof (induction cs arbitrary: s)
  case Nil
  show ?case by simp
next
  case (Cons c rest)
  show ?case
  proof (cases "is_monitoring (fst s)")
    case False
    then show ?thesis by simp
  next
    case True
    from Cons.IH [of "fst (loop_step c s)"] show ?thesis
      by (simp add: monitor_loop_Cons [OF True])
  qed
qed

lemma monitor_loop_append:
  "fst (monitor_loop (cs1 @ cs2) s) = fst (monitor_loop cs2 (fst (monitor_loop cs1 s)))"
proof (induction cs1 arbitrary: s)
  case Nil
  show ?case by simp
next
  case (Cons c rest)
  show ?case
  proof (cases "is_monitoring (fst s)")
    case False
    then show ?thesis by simp
  next
    case True
    from Cons.IH [of "fst (loop_step c s)"] show ?thesis
      by (simp add: monitor_loop_Cons [OF True])
  qed
qed

lemma monitor_loop_cooldown:
  "cooldown_inv (fst s) \<Longrightarrow>
   cooldown_inv (fst (fst (monitor_loop cs s)))
   \<and> current_cooldown (fst s) \<le> current_cooldown (fst (fst (monitor_loop cs s)))"
proof (induction cs arbitrary: s)
  case Nil
  then show ?case by simp
next
  case (Cons c rest)
  show ?case
  proof (cases "is_monitoring (fst s)")
    case False
    then show ?thesis using Cons.prems by simp
  next
    case True
    from Cons.IH [OF loop_step_inv [OF Cons.prems, of c]] loop_step_cooldown_mono [OF Cons.prems, of c]
    show ?thesis
      by (simp add: monitor_loop_Cons [OF True])
  qed
qed

lemma recompute_cooldown_bounds:
  "min_cooldown cfg \<le> max_cooldown cfg \<Longrightarrow>
   real_of_int (min_cooldown cfg) \<le> recompute_cooldown cfg n
   \<and> recompute_cooldown cfg n \<le> real_of_int (max_cooldown cfg)"
  by (auto simp: recompute_cooldown_def min_def max_def)

lemma new_bot_inv:
  "min_cooldown cfg \<le> max_cooldown cfg \<Longrightarrow> cooldown_inv (start_monitoring (new_bot_client cfg qs))"
  by (simp add: cooldown_inv_def new_bot_client_def start_monitoring_def recompute_cooldown_def)

lemma gen_fails_no_post: "gen_fails e \<Longrightarrow> snd (monitor_cycle w e s) = None"
proof -
  assume f: "gen_fails e"
  obtain b cl where s: "s = (b, cl)" by (cases s)
  have g: "snd (generate_autonomous_response e (b', cl')) = None" for b' cl'
    using generate_fail(1) [OF f] .
  have p: "snd (process_new_message e m (b, cl)) = None" for m
    by (simp add: process_new_message_def Let_def split_beta g)
  have c: "snd (check_spontaneous_contribution e (b, cl)) = None"
    using g [of b cl] by (simp add: check_spontaneous_contribution_def Let_def split_beta)
  show ?thesis unfolding s by (cases w) (simp_all add: monitor_cycle_def p c)
qed

text \<open>
  Claim C6. When the call of the provider raises, or returns a text that is empty once
  stripped, \<^verbatim>\<open>_generate_autonomous_response\<close> posts nothing and changes the bot in one
  counter only: \<open>errors\<close> goes up by one after an exception, \<open>passes_made\<close> by one after
  an empty text. The time of the last response, the cooldown, the urgency, the missed
  opportunities, the count of responses and the monitoring flag are as before. The cycle
  in which this happens posts nothing, leaves the time of the last response and the
  cooldown alone, and the loop goes on with its next cycle.
\<close>

theorem generation_failure_keeps_state:
  assumes "gen_fails e"
  shows "snd (generate_autonomous_response e (b, cl)) = None
    \<and> snd (fst (generate_autonomous_response e (b, cl))) = fst (run_ops (during e) cl)
    \<and> fst (fst (generate_autonomous_response e (b, cl))) =
        (case generated e of
           GenRaised \<Rightarrow> b\<lparr>bstats := (bstats b)\<lparr>errors := errors (bstats b) + 1\<rparr>\<rparr>
         | GenText r \<Rightarrow> b\<lparr>bstats := (bstats b)\<lparr>passes_made := passes_made (bstats b) + 1\<rparr>\<rparr>)
    \<and> last_response_time (fst (fst (generate_autonomous_response e (b, cl)))) = last_response_time b
    \<and> current_cooldown (fst (fst (generate_autonomous_response e (b, cl)))) = current_cooldown b
    \<and> response_urgency (fst (fst (generate_autonomous_response e (b, cl)))) = response_urgency b
    \<and> missed_opportunities (fst (fst (generate_autonomous_response e (b, cl)))) =
        missed_opportunities b
    \<and> total_responses (fst (fst (generate_autonomous_response e (b, cl)))) = total_responses b
    \<and> is_monitoring (fst (fst (generate_autonomous_response e (b, cl)))) = is_monitoring b
    \<and> snd (loop_step (others, w, e) s) = None
    \<and> is_monitoring (fst (fst (loop_step (others, w, e) s))) = is_monitoring (fst s)
    \<and> last_response_time (fst (fst (loop_step (others, w, e) s))) = last_response_time (fst s)
    \<and> current_cooldown (fst (fst (loop_step (others, w, e) s))) = current_cooldown (fst s)
    \<and> (if is_monitoring (fst s)
        then monitor_loop ((others, w, e) # rest) s = monitor_loop rest (fst (loop_step (others, w, e) s))
        else monitor_loop ((others, w, e) # rest) s = (s, []))"
proof -
  let ?g = "generate_autonomous_response e (b, cl)"
  note f = generate_fail [OF assms, of b cl]
  have fields: "last_response_time (fst (fst ?g)) = last_response_time b"
    "current_cooldown (fst (fst ?g)) = current_cooldown b"
    "response_urgency (fst (fst ?g)) = response_urgency b"
    "missed_opportunities (fst (fst ?g)) = missed_opportunities b"
    "total_responses (fst (fst ?g)) = total_responses b"
    "is_monitoring (fst (fst ?g)) = is_monitoring b"
    unfolding f(3) by (simp_all split: gen_result.splits)
  let ?c = "(others, w, e)"
  have np: "snd (loop_step ?c s) = None"
    by (simp add: loop_step_def gen_fails_no_post [OF assms])
  have st: "last_response_time (fst (fst (loop_step ?c s))) = last_response_time (fst s)"
    "current_cooldown (fst (fst (loop_step ?c s))) = current_cooldown (fst s)"
    using loop_step_ok [of ?c s] np by (simp_all add: cycle_ok_def)
  have loop: "monitor_loop (?c # rest) s = monitor_loop rest (fst (loop_step ?c s))"
    if "is_monitoring (fst s)"
    by (simp add: monitor_loop_Cons [OF that] np action_of_def)
  from f(1,2,3) fields np st loop show ?thesis by simp
qed


theorem generation_failure_keeps_state_witness:
  "gen_fails (ex_env 100 (GenText ''  ''))
   \<and> snd (generate_autonomous_response (ex_env 100 (GenText ''  '')) (ex_bot, init_chat_log 1000 0)) = None
   \<and> current_cooldown (fst (fst (generate_autonomous_response (ex_env 100 (GenText ''  ''))
         (ex_bot, init_chat_log 1000 0)))) = current_cooldown ex_bot
   \<and> passes_made (bstats (fst (fst (generate_autonomous_response (ex_env 100 (GenText ''  ''))
         (ex_bot, init_chat_log 1000 0))))) = 1
   \<and> errors (bstats (fst (fst (generate_autonomous_response (ex_env 100 GenRaised)
         (ex_bot, init_chat_log 1000 0))))) = 1"
proof -
  have h: "gen_fails (ex_env 100 (GenText ''  ''))" by code_simp
  have p: "passes_made (bstats (fst (fst (generate_autonomous_response (ex_env 100 (GenText ''  ''))
         (ex_bot, init_chat_log 1000 0))))) = 1" by code_simp
  have q: "errors (bstats (fst (fst (generate_autonomous_response (ex_env 100 GenRaised)
         (ex_bot, init_chat_log 1000 0))))) = 1" by code_simp
  from generation_failure_keeps_state [OF h, of ex_bot "init_chat_log 1000 0"] h p q
  show ?thesis by blast
qed

text \<open>
  Claim C9. For a bot whose configuration has \<open>min_cooldown \<le> max_cooldown\<close> (the
  configuration every \<^verbatim>\<open>BotClient\<close> is built with has 5 and 12): the cooldown starts at
  \<open>min_cooldown\<close>; every recomputation lies between \<open>min_cooldown\<close> and \<open>max_cooldown\<close> and
  does not decrease when the count of responses grows; at every point of a run of the
  monitoring loop the cooldown lies in that interval, it is no smaller at any later
  point, and every action leaves it at least as large as it found it. The two other
  methods that write the state, \<^verbatim>\<open>reset_conversation\<close> and \<^verbatim>\<open>update_personality\<close>, leave the
  cooldown and its relation to the count of responses as they are.
\<close>

theorem cooldown_bounded_and_monotone:
  assumes "min_cooldown cfg \<le> max_cooldown cfg"
    and "bs = start_monitoring (new_bot_client cfg qs)"
    and "be = fst (fst (monitor_loop early (bs, cl)))"
    and "bl = fst (fst (monitor_loop (early @ later) (bs, cl)))"
  shows "min_cooldown (make_config nm mdl prov pers st mt) \<le> max_cooldown (make_config nm mdl prov pers st mt)
    \<and> current_cooldown (new_bot_client cfg qs) = real_of_int (min_cooldown cfg)
    \<and> real_of_int (min_cooldown cfg) \<le> recompute_cooldown cfg n
    \<and> recompute_cooldown cfg n \<le> real_of_int (max_cooldown cfg)
    \<and> recompute_cooldown cfg n \<le> recompute_cooldown cfg (n + k)
    \<and> real_of_int (min_cooldown cfg) \<le> current_cooldown be
    \<and> current_cooldown be \<le> real_of_int (max_cooldown cfg)
    \<and> current_cooldown be \<le> current_cooldown bl
    \<and> list_all (\<lambda>a. cooldown_before a \<le> cooldown_after a) (snd (monitor_loop early (bs, cl)))
    \<and> current_cooldown (reset_conversation be) = current_cooldown be
    \<and> cooldown_inv (reset_conversation be)
    \<and> current_cooldown (update_personality np ns nq be) = current_cooldown be
    \<and> cooldown_inv (update_personality np ns nq be)"
proof -
  have i0: "cooldown_inv (fst (bs, cl))"
    unfolding assms(2) using new_bot_inv [OF assms(1)] by simp
  have c0: "config bs = cfg" unfolding assms(2) by (simp add: start_monitoring_def new_bot_client_def)
  have i1: "cooldown_inv be"
    unfolding assms(3) using monitor_loop_cooldown [OF i0] by simp
  have c1: "config be = cfg"
    unfolding assms(3) using monitor_loop_frame [of early "(bs, cl)"] c0 by simp
  note bd = recompute_cooldown_bounds [OF assms(1)]
  have bnd: "real_of_int (min_cooldown cfg) \<le> current_cooldown be"
    "current_cooldown be \<le> real_of_int (max_cooldown cfg)"
    using i1 bd [of "total_responses be"] unfolding cooldown_inv_def c1 by simp_all
  have "bl = fst (fst (monitor_loop later (fst (monitor_loop early (bs, cl)))))"
    unfolding assms(4) by (simp add: monitor_loop_append)
  moreover have "cooldown_inv (fst (fst (monitor_loop early (bs, cl))))"
    using i1 assms(3) by simp
  ultimately have m: "current_cooldown be \<le> current_cooldown bl"
    using monitor_loop_cooldown [of "fst (monitor_loop early (bs, cl))" later] assms(3) by simp
  have ini: "current_cooldown (new_bot_client cfg qs) = real_of_int (min_cooldown cfg)"
    by (simp add: new_bot_client_def)
  have mono: "recompute_cooldown cfg n \<le> recompute_cooldown cfg (n + k)"
    by (rule recompute_cooldown_mono) simp
  have dflt: "min_cooldown (make_config nm mdl prov pers st mt) \<le> max_cooldown (make_config nm mdl prov pers st mt)"
    by (simp add: make_config_def)
  have other: "current_cooldown (reset_conversation be) = current_cooldown be"
    "cooldown_inv (reset_conversation be)"
    "current_cooldown (update_personality np ns nq be) = current_cooldown be"
    "cooldown_inv (update_personality np ns nq be)"
    using i1 by (simp_all add: reset_conversation_def update_personality_def cooldown_inv_def
        recompute_cooldown_def)
  from dflt ini bd [of n] mono bnd m actions_cooldown_grows [OF i0, of early] other
  show ?thesis by simp
qed

theorem cooldown_bounded_and_monotone_witness:
  "min_cooldown ex_cfg \<le> max_cooldown ex_cfg
   \<and> ex_bot = start_monitoring (new_bot_client ex_cfg [''What does this mean for human purpose?''])
   \<and> 5 \<le> current_cooldown (fst (fst (monitor_loop (take 1 ex_cycles) (ex_bot, init_chat_log 1000 0))))
   \<and> current_cooldown (fst (fst (monitor_loop (take 1 ex_cycles) (ex_bot, init_chat_log 1000 0)))) \<le> 12
   \<and> current_cooldown (fst (fst (monitor_loop (take 1 ex_cycles) (ex_bot, init_chat_log 1000 0))))
       \<le> current_cooldown (fst (fst (monitor_loop (take 1 ex_cycles @ drop 1 ex_cycles)
             (ex_bot, init_chat_log 1000 0))))
   \<and> current_cooldown (fst (fst (monitor_loop (take 1 ex_cycles) (ex_bot, init_chat_log 1000 0)))) = 5.5
   \<and> current_cooldown (fst (fst (monitor_loop (take 1 ex_cycles @ drop 1 ex_cycles)
             (ex_bot, init_chat_log 1000 0)))) = 6
   \<and> recompute_cooldown ex_cfg 20 = 12"
proof -
  have h1: "min_cooldown ex_cfg \<le> max_cooldown ex_cfg" by code_simp
  have h2: "ex_bot = start_monitoring (new_bot_client ex_cfg [''What does this mean for human purpose?''])"
    by (simp add: ex_bot_def)
  have mn: "real_of_int (min_cooldown ex_cfg) = 5" and mx: "real_of_int (max_cooldown ex_cfg) = 12"
    by (simp_all add: ex_cfg_def make_config_def)
  have v1: "current_cooldown (fst (fst (monitor_loop (take 1 ex_cycles) (ex_bot, init_chat_log 1000 0)))) = 5.5"
    by code_simp
  have v2: "current_cooldown (fst (fst (monitor_loop (take 1 ex_cycles @ drop 1 ex_cycles)
             (ex_bot, init_chat_log 1000 0)))) = 6"
    by code_simp
  have v3: "recompute_cooldown ex_cfg 20 = 12" by code_simp
  from cooldown_bounded_and_monotone [OF h1 h2 refl refl, where early = "take 1 ex_cycles"
      and cl = "init_chat_log 1000 0" and later = "drop 1 ex_cycles" and n = 0 and k = 0]
  have "real_of_int (min_cooldown ex_cfg) \<le> current_cooldown (fst (fst (monitor_loop (take 1 ex_cycles) (ex_bot, init_chat_log 1000 0))))
    \<and> current_cooldown (fst (fst (monitor_loop (take 1 ex_cycles) (ex_bot, init_chat_log 1000 0)))) \<le> real_of_int (max_cooldown ex_cfg)
    \<and> current_cooldown (fst (fst (monitor_loop (take 1 ex_cycles) (ex_bot, init_chat_log 1000 0))))
       \<le> current_cooldown (fst (fst (monitor_loop (take 1 ex_cycles @ drop 1 ex_cycles)
             (ex_bot, init_chat_log 1000 0))))"
    by blast
  then show ?thesis unfolding mn mx using h1 h2 v1 v2 v3 by blast
qed

subsection \<open>Direct mentions\<close>



section \<open>Properties of the moderator\<close>

subsection \<open>Exceptions in a phase\<close>

lemma stop_queue_messages [simp]:
  "messages (stop_queue q cl) = messages cl"
  "message_counter (stop_queue q cl) = message_counter cl"
  "maxlen (stop_queue q cl) = maxlen cl"
  by (simp_all add: stop_queue_def unsubscribe_def split: option.splits)

lemma fold_stop_messages [simp]:
  "messages (fold (\<lambda>p cl. if p_is_bot p then stop_queue (p_queue p) cl else cl) ps cl) = messages cl
   \<and> message_counter (fold (\<lambda>p cl. if p_is_bot p then stop_queue (p_queue p) cl else cl) ps cl)
       = message_counter cl"
  by (induction ps arbitrary: cl) simp_all

lemma cleanup_fields [simp]:
  "messages (chat (cleanup_autonomous_tasks md)) = messages (chat md)"
  "message_counter (chat (cleanup_autonomous_tasks md)) = message_counter (chat md)"
  "quiet (cleanup_autonomous_tasks md)"
  "autonomous_mode (cleanup_autonomous_tasks md) = autonomous_mode md"
  by (simp_all add: cleanup_autonomous_tasks_def quiet_def list_all_iff)

lemma finally_fields [simp]:
  "phase (finally_clause md) = Finished"
  "messages (chat (finally_clause md)) = messages (chat md)"
  "message_counter (chat (finally_clause md)) = message_counter (chat md)"
  by (simp_all add: finally_clause_def Let_def)

lemma finally_quiet:
  "autonomous_mode md \<or> quiet md \<Longrightarrow> quiet (finally_clause md)"
  using cleanup_fields(3) [of md] by (auto simp: finally_clause_def Let_def quiet_def)

lemma broadcast_fields [simp]:
  "autonomous_mode (fst (broadcast_message t now md)) = autonomous_mode md"
  "quiet (fst (broadcast_message t now md)) = quiet md"
  "message_counter (chat (fst (broadcast_message t now md))) = message_counter (chat md) + 1"
  "messages (chat (fst (broadcast_message t now md))) =
     deque_append (maxlen (chat md)) (messages (chat md)) (snd (broadcast_message t now md))"
  "content (snd (broadcast_message t now md)) = t"
  "sender (snd (broadcast_message t now md)) = ''moderator''"
  "message_type (snd (broadcast_message t now md)) = ''moderator''"
  "message_id (snd (broadcast_message t now md)) = message_counter (chat md) + 1"
  by (simp_all add: broadcast_message_def split_beta quiet_def)

lemma run_phase_mode [simp]: "autonomous_mode (fst (run_phase ph r md)) = autonomous_mode md"
  by (simp add: run_phase_def Let_def)

lemma run_phase_quiet:
  "\<not> autonomous_mode md \<Longrightarrow> quiet (fst (run_phase ph r md)) = quiet md"
  by (simp add: run_phase_def Let_def quiet_def)

lemma run_phase_raised [simp]: "snd (run_phase ph r md) = raised r"
  by (simp add: run_phase_def Let_def)

lemma run_phases_Cons:
  "run_phases (ph # rest) runs md =
     (case raised (runs ph) of
        Some e \<Rightarrow> (fst (run_phase ph (runs ph) md), Some e, [ph])
      | None \<Rightarrow> (fst (run_phases rest runs (fst (run_phase ph (runs ph) md))),
                  fst (snd (run_phases rest runs (fst (run_phase ph (runs ph) md)))),
                  ph # snd (snd (run_phases rest runs (fst (run_phase ph (runs ph) md))))))"
  by (simp add: split_beta Let_def split: option.splits)

declare run_phases.simps(2) [simp del]

lemma run_phases_mode [simp]:
  "autonomous_mode (fst (run_phases phs runs md)) = autonomous_mode md"
  by (induction phs arbitrary: md) (simp_all add: run_phases_Cons split: option.splits)

lemma run_phases_quiet:
  "\<not> autonomous_mode md \<Longrightarrow> quiet (fst (run_phases phs runs md)) = quiet md"
  by (induction phs arbitrary: md)
    (simp_all add: run_phases_Cons run_phase_quiet split: option.splits)

lemma run_phases_prefix:
  "run_phases phs runs md = (md1, Some ex, entered) \<Longrightarrow>
   entered \<noteq> [] \<and> entered = take (length entered) phs \<and> raised (runs (last entered)) = Some ex
   \<and> list_all (\<lambda>ph. raised (runs ph) = None) (butlast entered)"
proof (induction phs arbitrary: md entered)
  case Nil
  then show ?case by simp
next
  case (Cons ph rest)
  show ?case
  proof (cases "raised (runs ph)")
    case (Some e)
    with Cons.prems show ?thesis by (auto simp: run_phases_Cons)
  next
    case None
    let ?r = "run_phases rest runs (fst (run_phase ph (runs ph) md))"
    from Cons.prems None have e: "entered = ph # snd (snd ?r)"
      and rec: "?r = (md1, Some ex, snd (snd ?r))"
      by (auto simp: run_phases_Cons prod_eq_iff)
    from Cons.IH [OF rec] e None show ?thesis by auto
  qed
qed

lemma finally_quiet_sequential:
  "\<not> autonomous_mode md \<Longrightarrow> quiet (finally_clause md) = quiet md"
  by (simp add: finally_clause_def Let_def quiet_def)



text \<open>An exception that \<^verbatim>\<open>except Exception\<close> does not catch (a cancellation, an
  interrupt) passes without a message; the final clause runs all the same.\<close>

lemma base_exception_teardown:
  assumes "snd (run_phases debate_phases runs md) = (Some (BaseOnly e), entered)"
  shows "run_debate runs now md =
           (finally_clause (fst (run_phases debate_phases runs md)), Some (BaseOnly e), entered)"
  using assms by (simp add: run_debate_def split_beta handle_exception_def prod_eq_iff)


subsection \<open>Time updates\<close>

lemma count_content_append [simp]:
  "count_content t (xs @ ys) = count_content t xs + count_content t ys"
  by (simp add: count_content_def)

lemma count_content_Nil [simp]: "count_content t [] = 0"
  by (simp add: count_content_def)

lemma pick_is_prompt: "simple_prompts ! (n mod length simple_prompts) \<in> set simple_prompts"
  by (rule nth_mem) (simp add: simple_prompts_def)

lemma prompt_on_silence_count:
  "t \<notin> set simple_prompts \<Longrightarrow> count_content t (snd (prompt_on_silence k md)) = 0"
  using pick_is_prompt [of "t_pick k"]
  by (auto simp: prompt_on_silence_def Let_def split_beta count_content_def)

lemma milestones_no_prompts:
  "five_minutes \<notin> set simple_prompts" "two_minutes \<notin> set simple_prompts"
  "one_minute \<notin> set simple_prompts"
  by (simp_all add: simple_prompts_def five_minutes_def two_minutes_def one_minute_def)

lemma milestones_distinct:
  "five_minutes \<noteq> two_minutes" "five_minutes \<noteq> one_minute" "two_minutes \<noteq> one_minute"
  by (simp_all add: five_minutes_def two_minutes_def one_minute_def)

lemma provide_time_updates_count:
  "count_content five_minutes (snd (provide_time_updates r now md)) =
     (if 299 < r \<and> r \<le> 301 then 1 else 0)"
  "count_content two_minutes (snd (provide_time_updates r now md)) =
     (if 119 < r \<and> r \<le> 121 then 1 else 0)"
  "count_content one_minute (snd (provide_time_updates r now md)) =
     (if 59 < r \<and> r \<le> 61 then 1 else 0)"
  using milestones_distinct
  by (auto simp: provide_time_updates_def split_beta count_content_def)

lemma facilitate_step_count:
  "count_content five_minutes (snd (facilitate_step began budget k s)) =
     (if in_window began budget 299 301 k then 1 else 0)"
  "count_content two_minutes (snd (facilitate_step began budget k s)) =
     (if in_window began budget 119 121 k then 1 else 0)"
  "count_content one_minute (snd (facilitate_step began budget k s)) =
     (if in_window began budget 59 61 k then 1 else 0)"
  by (simp_all add: facilitate_step_def Let_def split_beta prompt_on_silence_count
      milestones_no_prompts provide_time_updates_count in_window_def)

lemma facilitate_count:
  "count_content five_minutes (snd (facilitate began budget ks s)) =
     length (filter (in_window began budget 299 301) (passes began budget ks))"
  "count_content two_minutes (snd (facilitate began budget ks s)) =
     length (filter (in_window began budget 119 121) (passes began budget ks))"
  "count_content one_minute (snd (facilitate began budget ks s)) =
     length (filter (in_window began budget 59 61) (passes began budget ks))"
  by (induction ks arbitrary: s) (simp_all add: split_beta Let_def facilitate_step_count)

lemma window_once_aux:
  assumes "list_all (\<lambda>k'. t_now k + 15 \<le> t_now k') ks" "in_window began budget lo hi k"
    "hi - lo \<le> 15"
  shows "filter (in_window began budget lo hi) (passes began budget ks) = []"
proof -
  have sub: "set (passes began budget xs) \<subseteq> set xs" for xs
    by (induction xs) auto
  have "\<not> in_window began budget lo hi k'" if "k' \<in> set ks" for k'
    using assms that by (auto simp: list_all_iff in_window_def)
  with sub [of ks] show ?thesis by (auto simp: filter_empty_conv)
qed

lemma window_once:
  "ticks_apart ks \<Longrightarrow> hi - lo \<le> 15 \<Longrightarrow>
   length (filter (in_window began budget lo hi) (passes began budget ks)) \<le> 1"
proof (induction ks)
  case Nil
  show ?case by simp
next
  case (Cons k ks)
  show ?case
  proof (cases "in_window began budget lo hi k")
    case True
    from window_once_aux [OF _ True Cons.prems(2), of ks] Cons.prems(1)
    show ?thesis by simp
  next
    case False
    with Cons show ?thesis by simp
  qed
qed

lemma drift_apart: "ticks_apart (map drift_tick [a ..< a + n])"
proof (induction n arbitrary: a)
  case 0
  show ?case by simp
next
  case (Suc n)
  have e: "[a ..< a + Suc n] = a # [Suc a ..< Suc a + n]"
    by (simp add: upt_rec)
  have "t_now (drift_tick a) + 15 \<le> t_now (drift_tick j)" if "Suc a \<le> j" for j
  proof -
    from that have "real a + 1 \<le> real j" by linarith
    then show ?thesis by (simp add: drift_tick_def)
  qed
  with Suc [of "Suc a"] show ?case
    unfolding e by (auto simp: list_all_iff)
qed

lemma drift_misses:
  "\<not> in_window 0 1800 299 301 (drift_tick i)"
  "\<not> in_window 0 1800 119 121 (drift_tick i)"
  "\<not> in_window 0 1800 59 61 (drift_tick i)"
proof -
  show "\<not> in_window 0 1800 299 301 (drift_tick i)"
  proof (cases "i < 99")
    case True
    then have "real i \<le> 98" by linarith
    then show ?thesis by (simp add: in_window_def drift_tick_def)
  next
    case False
    then have "99 \<le> real i" by linarith
    then show ?thesis by (simp add: in_window_def drift_tick_def)
  qed
  show "\<not> in_window 0 1800 119 121 (drift_tick i)"
  proof (cases "i < 111")
    case True
    then have "real i \<le> 110" by linarith
    then show ?thesis by (simp add: in_window_def drift_tick_def)
  next
    case False
    then have "111 \<le> real i" by linarith
    then show ?thesis by (simp add: in_window_def drift_tick_def)
  qed
  show "\<not> in_window 0 1800 59 61 (drift_tick i)"
  proof (cases "i < 115")
    case True
    then have "real i \<le> 114" by linarith
    then show ?thesis by (simp add: in_window_def drift_tick_def)
  next
    case False
    then have "115 \<le> real i" by linarith
    then show ?thesis by (simp add: in_window_def drift_tick_def)
  qed
qed

lemma drift_filter:
  "filter (in_window 0 1800 lo hi) (passes 0 1800 drift_ticks) = []"
  if "\<And>i. \<not> in_window 0 1800 lo hi (drift_tick i)"
proof -
  have sub: "set (passes began budget xs) \<subseteq> set xs" for began budget xs
    by (induction xs) auto
  show ?thesis
    using sub [of 0 1800 drift_ticks] that
    by (auto simp: filter_empty_conv drift_ticks_def)
qed

lemma facilitate_discussion_out:
  "snd (facilitate_autonomous_discussion began budget ks md) =
     snd (facilitate began budget ks (length (messages (chat md)), md))"
  by (simp add: facilitate_autonomous_discussion_def split_beta)




subsection \<open>Timeouts of structured turns\<close>

lemma broadcast_frame [simp]:
  "phase (fst (broadcast_message t now md)) = phase md"
  "participants (fst (broadcast_message t now md)) = participants md"
  "turn_order (fst (broadcast_message t now md)) = turn_order md"
  "warnings_issued (fst (broadcast_message t now md)) = warnings_issued md"
  "current_speaker (fst (broadcast_message t now md)) = current_speaker md"
  "warning_time (fst (broadcast_message t now md)) = warning_time md"
  by (simp_all add: broadcast_message_def split_beta)

lemma say_frame [simp]:
  "phase (after (say e t r)) = phase (after r)"
  "participants (after (say e t r)) = participants (after r)"
  "turn_order (after (say e t r)) = turn_order (after r)"
  "warnings_issued (after (say e t r)) = warnings_issued (after r)"
  "warning_time (after (say e t r)) = warning_time (after r)"
  "task_cancels (say e t r) = task_cancels r"
  "map content (said (say e t r)) = map content (said r) @ [t]"
  by (simp_all add: say_def split_beta)

lemma send_warning_frame [simp]:
  "phase (after (send_warning e nm x r)) = phase (after r)"
  "participants (after (send_warning e nm x r)) = participants (after r)"
  "turn_order (after (send_warning e nm x r)) = turn_order (after r)"
  "warnings_issued (after (send_warning e nm x r)) = warnings_issued (after r)"
  "warning_time (after (send_warning e nm x r)) = warning_time (after r)"
  "task_cancels (send_warning e nm x r) = task_cancels r"
  by (simp_all add: send_warning_def)

lemma process_response_frame [simp]:
  "phase (after (process_response e nm x r)) = phase (after r)"
  "participants (after (process_response e nm x r)) = participants (after r)"
  "turn_order (after (process_response e nm x r)) = turn_order (after r)"
  "warnings_issued (after (process_response e nm x r)) = warnings_issued (after r)"
  "task_cancels (process_response e nm x r) = task_cancels r"
  by (simp_all add: process_response_def Let_def split_beta)

lemma process_response_said:
  "set (map content (said r)) \<subseteq> set (map content (said (process_response e nm x r)))"
proof -
  have "\<exists>extra. map content (said (process_response e nm x r)) = map content (said r) @ extra"
    by (simp add: process_response_def Let_def split_beta)
  then obtain extra where
    e: "map content (said (process_response e nm x r)) = map content (said r) @ extra" ..
  show ?thesis unfolding e by simp
qed

lemma handle_timeout_frame [simp]:
  "phase (after (handle_timeout e nm r)) = phase (after r)"
  "participants (after (handle_timeout e nm r)) = participants (after r)"
  "turn_order (after (handle_timeout e nm r)) = turn_order (after r)"
  "warnings_issued (after (handle_timeout e nm r)) =
     (warnings_issued (after r))(nm \<mapsto> warnings_of (after r) nm + 1)"
  "task_cancels (handle_timeout e nm r) = task_cancels r"
  by (simp_all add: handle_timeout_def Let_def)

lemma handle_timeout_said:
  "timeout_text nm (warnings_of (after r) nm + 1) \<in> set (map content (said (handle_timeout e nm r)))"
  by (simp add: handle_timeout_def Let_def)

lemma timer_loop_frame:
  "phase (after (fst (timer_loop e nm L ts ws r))) = phase (after r)
   \<and> participants (after (fst (timer_loop e nm L ts ws r))) = participants (after r)
   \<and> turn_order (after (fst (timer_loop e nm L ts ws r))) = turn_order (after r)
   \<and> warnings_issued (after (fst (timer_loop e nm L ts ws r))) = warnings_issued (after r)
   \<and> snd (timer_loop e nm L ts ws r) = list_ex (\<lambda>t. real_of_int L - (t - timer_start e) \<le> 0) ts
   \<and> task_cancels (fst (timer_loop e nm L ts ws r)) =
       task_cancels r + (if list_ex (\<lambda>t. real_of_int L - (t - timer_start e) \<le> 0) ts then 1 else 0)"
proof (induction ts arbitrary: ws r)
  case Nil
  show ?case by simp
next
  case (Cons t ts)
  show ?case
  proof (cases "real_of_int L - (t - timer_start e) \<le> 0")
    case True
    then show ?thesis by simp
  next
    case False
    show ?thesis
    proof (cases "\<not> ws \<and> real_of_int L - (t - timer_start e) \<le> warning_time (after r)")
      case True
      with False Cons [of True "send_warning e nm (real_of_int L - (t - timer_start e)) r"]
      show ?thesis by (simp add: Let_def)
    next
      case no: False
      with False Cons [of ws r] show ?thesis by (auto simp: Let_def)
    qed
  qed
qed

text \<open>
  Claim C8. The time of a structured turn has run out when a pass of its timer finds
  the response task still running with no time remaining. In such a turn the task is
  cancelled by exactly one call, and the warning counter of the participant goes up by
  exactly one, every other counter staying as it was; the broadcast
  \<open>name exceeded time limit. Warning k/3\<close> with the new count \<open>k\<close> is among the messages
  of the turn. In a turn whose time does not run out nothing is cancelled and no counter
  changes. Whatever the counters are, before or after, a turn leaves the phase, the
  participants and the turn order as they were: a third warning is recorded like any
  other and has no further effect.
\<close>

theorem structured_turn_timeout:
  "task_cancels (give_structured_turn e nm L ty md) = (if expired e L then 1 else 0)
   \<and> warnings_issued (after (give_structured_turn e nm L ty md)) =
       (if expired e L then (warnings_issued md)(nm \<mapsto> warnings_of md nm + 1)
        else warnings_issued md)
   \<and> (expired e L \<longrightarrow>
        timeout_text nm (warnings_of md nm + 1)
          \<in> set (map content (said (give_structured_turn e nm L ty md))))
   \<and> phase (after (give_structured_turn e nm L ty md)) = phase md
   \<and> participants (after (give_structured_turn e nm L ty md)) = participants md
   \<and> turn_order (after (give_structured_turn e nm L ty md)) = turn_order md
   \<and> current_speaker (after (give_structured_turn e nm L ty md)) = None"
proof -
  let ?r0 = "open_turn e nm L ty md"
  let ?tl = "timer_loop e nm L (readings e) False ?r0"
  let ?r1 = "fst ?tl"
  have r0: "phase (after ?r0) = phase md" "participants (after ?r0) = participants md"
    "turn_order (after ?r0) = turn_order md" "warnings_issued (after ?r0) = warnings_issued md"
    "task_cancels ?r0 = 0"
    by (simp_all add: open_turn_def)
  note tl = timer_loop_frame [of e nm L "readings e" False ?r0]
  have out: "snd ?tl = expired e L" using tl by (simp add: expired_def)
  have r1: "phase (after ?r1) = phase md" "participants (after ?r1) = participants md"
    "turn_order (after ?r1) = turn_order md" "warnings_issued (after ?r1) = warnings_issued md"
    "task_cancels ?r1 = (if expired e L then 1 else 0)"
    using tl r0 by (simp_all add: expired_def)
  have w1: "warnings_of (after ?r1) nm = warnings_of md nm"
    using r1(4) by (simp add: warnings_of_def)
  have g: "give_structured_turn e nm L ty md = close_turn e nm (expired e L) ?r1"
    using out by (simp add: give_structured_turn_def split_beta)
  show ?thesis
  proof (cases "expired e L")
    case True
    let ?h = "handle_timeout e nm ?r1"
    have h: "timeout_text nm (warnings_of md nm + 1) \<in> set (map content (said ?h))"
      using handle_timeout_said [of nm ?r1 e] w1 by simp
    have hp: "timeout_text nm (warnings_of md nm + 1)
        \<in> set (map content (said (process_response e nm x ?h)))" for x
      using h process_response_said [of ?h e nm x] by blast
    show ?thesis
      unfolding g using True r1 w1 h hp
      by (cases "cancel_ends e") (simp_all add: close_turn_def Let_def)
  next
    case False
    show ?thesis
      unfolding g using False r1
      by (cases "completes e") (simp_all add: close_turn_def Let_def)
  qed
qed


theorem structured_turn_timeout_witness:
  "expired late_env 2
   \<and> task_cancels (give_structured_turn late_env ''Socrates'' 2 ''response'' ex_moderator) = 1
   \<and> timeout_text ''Socrates'' (warnings_of ex_moderator ''Socrates'' + 1)
       \<in> set (map content (said (give_structured_turn late_env ''Socrates'' 2 ''response'' ex_moderator)))
   \<and> participants (late_turn ex_moderator) = participants ex_moderator
   \<and> warnings_issued (late_turn ex_moderator) ''Socrates'' = Some 1
   \<and> warnings_issued (late_turn (late_turn (late_turn ex_moderator))) ''Socrates'' = Some 3
   \<and> ''Socrates exceeded time limit. Warning 3/3''
       \<in> set (map content (messages (chat (late_turn (late_turn (late_turn ex_moderator))))))"
proof -
  have h: "expired late_env 2" by code_simp
  note t = structured_turn_timeout [of late_env "''Socrates''" 2 "''response''" ex_moderator,
      unfolded h [THEN eqTrueI] if_True simp_thms]
  have c: "task_cancels (give_structured_turn late_env ''Socrates'' 2 ''response'' ex_moderator) = 1"
    and m: "timeout_text ''Socrates'' (warnings_of ex_moderator ''Socrates'' + 1)
       \<in> set (map content (said (give_structured_turn late_env ''Socrates'' 2 ''response'' ex_moderator)))"
    and p: "participants (late_turn ex_moderator) = participants ex_moderator"
    unfolding late_turn_def using t by blast+
  have w1: "warnings_issued (late_turn ex_moderator) ''Socrates'' = Some 1" by code_simp
  have w3: "warnings_issued (late_turn (late_turn (late_turn ex_moderator))) ''Socrates'' = Some 3"
    by code_simp
  have w4: "''Socrates exceeded time limit. Warning 3/3''
       \<in> set (map content (messages (chat (late_turn (late_turn (late_turn ex_moderator))))))"
    by code_simp
  from h c m p w1 w3 w4 show ?thesis by blast
qed

section \<open>Properties of the voting system\<close>

lemma cast_refused_votes [simp]: "cast_refused c (vs\<lparr>votes := x\<rparr>) = cast_refused c vs"
  by (auto simp: cast_refused_def is_eligible_voter_def)

lemma vote_of_votes [simp]: "vote_of c (vs\<lparr>votes := x\<rparr>) = vote_of c vs"
  by (simp add: vote_of_def)

lemma cast_all_votes:
  "cast_all cs vs =
     vs\<lparr>votes := fold (\<lambda>c al. AList.update (c_voter c) (vote_of c vs) al)
                    (filter (\<lambda>c. cast_refused c vs = None) cs) (votes vs)\<rparr>"
proof (induction cs arbitrary: vs)
  case Nil
  show ?case by simp
next
  case (Cons c cs)
  show ?case
  proof (cases "cast_refused c vs")
    case None
    then show ?thesis
      using Cons [of "vs\<lparr>votes := AList.update (c_voter c) (vote_of c vs) (votes vs)\<rparr>"]
      by (simp add: cast_vote_def)
  next
    case (Some err)
    then show ?thesis using Cons [of vs] by (simp add: cast_vote_def)
  qed
qed

lemma map_of_fold_update:
  "map_of (fold (\<lambda>c al. AList.update (k c) (v c) al) cs al) =
     map_of (rev (map (\<lambda>c. (k c, v c)) cs) @ al)"
proof (induction cs arbitrary: al)
  case Nil
  show ?case by simp
next
  case (Cons c cs)
  show ?case
    by (simp add: Cons update_conv' map_add_def fun_eq_iff split: option.splits)
qed

lemma distinct_fold_update:
  "distinct (map fst al) \<Longrightarrow>
   distinct (map fst (fold (\<lambda>c al. AList.update (k c) (v c) al) cs al))"
  by (induction cs arbitrary: al) (simp_all add: distinct_update)

lemma fold_counter:
  assumes "distinct (map fst al)" "\<forall>x n. map_of al x = Some n \<longrightarrow> 0 < n"
  shows "distinct (map fst (fold (\<lambda>x al. AList.update x ((case map_of al x of None \<Rightarrow> 0 | Some n \<Rightarrow> n) + 1) al) xs al))
    \<and> (\<forall>x n. map_of (fold (\<lambda>x al. AList.update x ((case map_of al x of None \<Rightarrow> 0 | Some n \<Rightarrow> n) + 1) al) xs al) x = Some n
           \<longrightarrow> 0 < n)
    \<and> (\<forall>x. cnt (fold (\<lambda>x al. AList.update x ((case map_of al x of None \<Rightarrow> 0 | Some n \<Rightarrow> n) + 1) al) xs al) x
           = cnt al x + count_list xs x)"
  using assms
proof (induction xs arbitrary: al)
  case Nil
  then show ?case by simp
next
  case (Cons y ys)
  let ?al = "AList.update y ((case map_of al y of None \<Rightarrow> 0 | Some n \<Rightarrow> n) + 1) al"
  have d: "distinct (map fst ?al)" using Cons.prems(1) by (simp add: distinct_update)
  have p: "\<forall>x n. map_of ?al x = Some n \<longrightarrow> 0 < n"
    using Cons.prems(2) by (auto simp: update_Some_unfold)
  have c: "cnt ?al x = cnt al x + (if x = y then 1 else 0)" for x
    by (simp add: cnt_def update_conv')
  from Cons.IH [OF d p] c show ?case by (auto simp: add.assoc)
qed

lemma counter_props:
  "distinct (map fst (counter xs))"
  "map_of (counter xs) x = (if count_list xs x = 0 then None else Some (count_list xs x))"
proof -
  have f: "distinct (map fst (counter xs))
     \<and> (\<forall>x n. map_of (counter xs) x = Some n \<longrightarrow> 0 < n)
     \<and> (\<forall>x. cnt (counter xs) x = cnt [] x + count_list xs x)"
    unfolding counter_def by (rule fold_counter) simp_all
  show "distinct (map fst (counter xs))" using f by simp
  have pos: "map_of (counter xs) x = Some n \<Longrightarrow> 0 < n" for n using f by blast
  have c: "cnt (counter xs) x = count_list xs x" using f by (simp add: cnt_def)
  show "map_of (counter xs) x = (if count_list xs x = 0 then None else Some (count_list xs x))"
    using pos c by (cases "map_of (counter xs) x") (auto simp: cnt_def)
qed

lemma count_list_map:
  "count_list (map f xs) c = length (filter (\<lambda>p. f p = c) xs)"
  by (induction xs) auto

lemma tally_count:
  "tally vs c = count_list (map (\<lambda>p. candidate (snd p)) (votes vs)) c"
  by (simp add: tally_def count_list_map)

lemma fold_max_props:
  "a \<le> fold max xs a \<and> (\<forall>x \<in> set xs. x \<le> fold max xs a)
   \<and> (fold max xs a = a \<or> fold max xs a \<in> set xs)" for a :: nat
proof (induction xs arbitrary: a)
  case Nil
  show ?case by simp
next
  case (Cons x xs)
  from Cons [of "max x a"] show ?case by (auto simp: max_def split: if_splits)
qed

lemma counts_entry:
  "(c, n) \<in> set (counter (map (\<lambda>p. candidate (snd p)) (votes vs))) \<longleftrightarrow>
     n = tally vs c \<and> 0 < tally vs c"
proof -
  have "(c, n) \<in> set (counter (map (\<lambda>p. candidate (snd p)) (votes vs))) \<longleftrightarrow>
      map_of (counter (map (\<lambda>p. candidate (snd p)) (votes vs))) c = Some n"
    using map_of_eq_Some_iff [OF counter_props(1)] by metis
  also have "\<dots> \<longleftrightarrow> n = tally vs c \<and> 0 < tally vs c"
    unfolding counter_props(2) tally_count by auto
  finally show ?thesis .
qed

lemma counts_empty:
  "counter (map (\<lambda>p. candidate (snd p)) (votes vs)) = [] \<longleftrightarrow> votes vs = []" for vs :: voting_system
proof
  assume e: "counter (map (\<lambda>p. candidate (snd p)) (votes vs)) = []"
  show "votes vs = []"
  proof (rule ccontr)
    assume "votes vs \<noteq> []"
    then obtain p ps where v: "votes vs = p # ps" by (cases "votes vs") auto
    have "0 < tally vs (candidate (snd p))" by (simp add: tally_def v)
    then have "(candidate (snd p), tally vs (candidate (snd p)))
        \<in> set (counter (map (\<lambda>p. candidate (snd p)) (votes vs)))"
      by (simp add: counts_entry)
    with e show False by simp
  qed
next
  assume "votes vs = []"
  then show "counter (map (\<lambda>p. candidate (snd p)) (votes vs)) = []"
    by (simp add: counter_def)
qed

lemma winners_char:
  "distinct (winners_of (counter (map (\<lambda>p. candidate (snd p)) (votes vs))))
   \<and> set (winners_of (counter (map (\<lambda>p. candidate (snd p)) (votes vs)))) = {c. leads vs c}"
proof -
  let ?counts = "counter (map (\<lambda>p. candidate (snd p)) (votes vs))"
  let ?mx = "fold max (map snd ?counts) 0"
  note fm = fold_max_props [of 0 "map snd ?counts"]
  have le: "tally vs c \<le> ?mx" for c
  proof (cases "tally vs c = 0")
    case True
    then show ?thesis by simp
  next
    case False
    then have "(c, tally vs c) \<in> set ?counts" by (simp add: counts_entry)
    then have "tally vs c \<in> set (map snd ?counts)" by force
    with fm show ?thesis by blast
  qed
  have att: "\<exists>c. tally vs c = ?mx \<and> 0 < tally vs c" if "0 < ?mx"
  proof -
    from fm that have "?mx \<in> set (map snd ?counts)" by auto
    then obtain c where "(c, ?mx) \<in> set ?counts" by auto
    then show ?thesis by (auto simp: counts_entry)
  qed
  have d: "distinct (winners_of ?counts)"
    unfolding winners_of_def Let_def
    by (rule distinct_map_filter) (rule counter_props(1))
  have "set (winners_of ?counts) = {c. 0 < tally vs c \<and> tally vs c = ?mx}"
    unfolding winners_of_def Let_def
    by (auto simp: counts_entry image_iff)
  also have "\<dots> = {c. leads vs c}"
  proof (rule Collect_cong)
    fix c
    show "(0 < tally vs c \<and> tally vs c = ?mx) = leads vs c"
    proof
      assume "0 < tally vs c \<and> tally vs c = ?mx"
      then show "leads vs c" using le by (simp add: leads_def)
    next
      assume l: "leads vs c"
      then have "0 < ?mx" using le [of c] by (simp add: leads_def)
      from att [OF this] obtain c' where "tally vs c' = ?mx" by blast
      with l le [of c] show "0 < tally vs c \<and> tally vs c = ?mx"
        by (auto simp: leads_def dest: spec [of _ c'])
    qed
  qed
  finally show ?thesis using d by simp
qed

lemma cast_all_active [simp]: "is_active (cast_all cs vs) = is_active vs"
  by (subst cast_all_votes) simp

lemma some_leader:
  assumes "votes vs \<noteq> []"
  shows "\<exists>c. leads vs c"
proof -
  let ?ws = "winners_of (counter (map (\<lambda>p. candidate (snd p)) (votes vs)))"
  let ?counts = "counter (map (\<lambda>p. candidate (snd p)) (votes vs))"
  let ?mx = "fold max (map snd ?counts) 0"
  from assms have ne: "?counts \<noteq> []" by (simp add: counts_empty)
  then obtain c n where e: "(c, n) \<in> set ?counts" by (cases ?counts) auto
  note fm = fold_max_props [of 0 "map snd ?counts"]
  from e have "n \<in> set (map snd ?counts)" by force
  with fm have "n \<le> ?mx" by blast
  moreover from e have "0 < n" by (simp add: counts_entry)
  ultimately have "0 < ?mx" by simp
  with fm have "?mx \<in> set (map snd ?counts)" by auto
  then obtain c' where "(c', ?mx) \<in> set ?counts" by auto
  then have "c' \<in> set ?ws" by (force simp: winners_of_def Let_def)
  then show ?thesis using winners_char [of vs] by auto
qed

lemma leads_alone_unique:
  assumes "leads_alone vs c"
  shows "leads vs c' \<longleftrightarrow> c' = c"
proof
  assume l: "leads vs c'"
  show "c' = c"
  proof (rule ccontr)
    assume "c' \<noteq> c"
    with assms have "tally vs c' < tally vs c" by (simp add: leads_alone_def)
    moreover from l have "tally vs c \<le> tally vs c'" by (simp add: leads_def)
    ultimately show False by simp
  qed
next
  assume e: "c' = c"
  have "tally vs x \<le> tally vs c" for x
    using assms by (cases "x = c") (simp_all add: leads_alone_def less_imp_le)
  with assms show "leads vs c'" unfolding e by (simp add: leads_alone_def leads_def)
qed

lemma distinct_singleton_set:
  assumes "distinct xs" "set xs = {c}"
  shows "xs = [c]"
proof (cases xs)
  case Nil
  with assms show ?thesis by simp
next
  case (Cons a as)
  with assms have a: "a = c" and sub: "set as \<subseteq> {c}" and nin: "c \<notin> set as" by auto
  have "as = []"
  proof (cases as)
    case Nil
    then show ?thesis .
  next
    case (Cons b bs)
    with sub have "b = c" by simp
    with Cons nin show ?thesis by simp
  qed
  with Cons a show ?thesis by simp
qed

lemma single_leader_alone:
  assumes "{c. leads vs c} = {c}"
  shows "leads_alone vs c"
proof -
  from assms have l: "leads vs c" by auto
  have "tally vs c' < tally vs c" if "c' \<noteq> c" for c'
  proof (rule ccontr)
    assume "\<not> tally vs c' < tally vs c"
    with l have "tally vs c' = tally vs c" by (simp add: leads_def le_antisym)
    with l have "leads vs c'" by (simp add: leads_def)
    with assms that show False by auto
  qed
  with l show ?thesis by (simp add: leads_alone_def leads_def)
qed

text \<open>
  Claim C10. Start from an active session in which no voter is recorded twice (as
  after \<^verbatim>\<open>start_voting\<close>) and make any series of calls of \<^verbatim>\<open>cast_vote\<close>. The vote recorded
  for a voter is then the last accepted one, a later vote having replaced an earlier
  one, and no voter is recorded twice. \<^verbatim>\<open>end_voting\<close> returns results computed from these
  votes: the total is the number of voters recorded, the count of a candidate is the
  number of voters whose recorded vote is for it, and the candidates the code lists as
  winners are, without repetition, exactly those with a vote and no fewer votes than
  any other. The winner is \<^verbatim>\<open>None\<close> when no vote is recorded, the candidate that leads
  alone when there is one, and otherwise, with two or more candidates leading, the
  string \<open>TIE: \<close> followed by the leading candidates separated by a comma and a blank.
\<close>

theorem winner_from_latest_votes:
  assumes "is_active vs" and "distinct (map fst (votes vs))"
    and "vs' = cast_all cs vs" and "res = compute_results now vs'"
    and "ws = winners_of (vote_counts res)"
  shows "map_of (votes vs') =
           map_of (rev (map (\<lambda>c. (c_voter c, vote_of c vs))
                          (filter (\<lambda>c. cast_refused c vs = None) cs)) @ votes vs)
    \<and> distinct (map fst (votes vs'))
    \<and> end_voting now vs' =
        Inr (vs'\<lparr>is_active := False,
                 vote_history := vote_history vs' @ [(now, candidates vs', res)]\<rparr>, res)
    \<and> total_votes res = length (votes vs')
    \<and> map_of (vote_counts res) c = (if tally vs' c = 0 then None else Some (tally vs' c))
    \<and> distinct ws \<and> set ws = {c. leads vs' c}
    \<and> winner res = (if votes vs' = [] then None
                    else if length ws = 1 then Some (hd ws)
                    else Some (''TIE: '' @ join '', '' ws))
    \<and> (votes vs' = [] \<longrightarrow> winner res = None)
    \<and> (leads_alone vs' c \<longrightarrow> winner res = Some c)
    \<and> (votes vs' \<noteq> [] \<and> (\<forall>c. \<not> leads_alone vs' c) \<longrightarrow>
         2 \<le> length ws \<and> winner res = Some (''TIE: '' @ join '', '' ws))"
proof -
  let ?acc = "filter (\<lambda>c. cast_refused c vs = None) cs"
  have v: "votes vs' = fold (\<lambda>c al. AList.update (c_voter c) (vote_of c vs) al) ?acc (votes vs)"
    unfolding assms(3) by (subst cast_all_votes) simp
  have p1: "map_of (votes vs') = map_of (rev (map (\<lambda>c. (c_voter c, vote_of c vs)) ?acc) @ votes vs)"
    unfolding v by (rule map_of_fold_update)
  have p2: "distinct (map fst (votes vs'))"
    unfolding v using assms(2) by (rule distinct_fold_update)
  have act: "is_active vs'" using assms(1,3) by simp
  have p3: "end_voting now vs' =
        Inr (vs'\<lparr>is_active := False,
                 vote_history := vote_history vs' @ [(now, candidates vs', res)]\<rparr>, res)"
    using act by (simp add: end_voting_def Let_def assms(4))
  have vc: "vote_counts res = counter (map (\<lambda>p. candidate (snd p)) (votes vs'))"
    and tv: "total_votes res = length (votes vs')"
    and wn: "winner res = decide_winner (counter (map (\<lambda>p. candidate (snd p)) (votes vs')))"
    unfolding assms(4) by (simp_all add: compute_results_def Let_def)
  have p5: "map_of (vote_counts res) c = (if tally vs' c = 0 then None else Some (tally vs' c))"
    unfolding vc counter_props(2) tally_count ..
  have ws: "distinct ws" "set ws = {c. leads vs' c}"
    unfolding assms(5) vc using winners_char [of vs'] by simp_all
  have p8: "winner res = (if votes vs' = [] then None
                    else if length ws = 1 then Some (hd ws)
                    else Some (''TIE: '' @ join '', '' ws))"
    unfolding wn decide_winner_def counts_empty assms(5) vc by (simp add: Let_def)
  have p10: "winner res = Some c" if "leads_alone vs' c"
  proof -
    from that have "set ws = {c}" using ws(2) leads_alone_unique [OF that] by auto
    with ws(1) have "ws = [c]" by (rule distinct_singleton_set)
    moreover from that have "votes vs' \<noteq> []" by (auto simp: leads_alone_def tally_def)
    ultimately show ?thesis unfolding p8 by simp
  qed
  have p11: "2 \<le> length ws \<and> winner res = Some (''TIE: '' @ join '', '' ws)"
    if ne: "votes vs' \<noteq> []" and no: "\<forall>c. \<not> leads_alone vs' c"
  proof -
    from some_leader [OF ne] ws(2) have n0: "ws \<noteq> []" by auto
    have n1: "length ws \<noteq> 1"
    proof
      assume "length ws = 1"
      then obtain c where "ws = [c]" by (cases ws) auto
      with ws(2) have "{c. leads vs' c} = {c}" by simp
      from single_leader_alone [OF this] no show False by simp
    qed
    from n0 n1 have "2 \<le> length ws"
      by (cases ws) (simp, rename_tac a as, case_tac as, simp_all)
    with n1 ne show ?thesis unfolding p8 by simp
  qed
  have p9: "winner res = None" if "votes vs' = []"
    using that unfolding p8 by simp
  show ?thesis
  proof (intro conjI impI)
    fix dummy
    show "votes vs' = [] \<Longrightarrow> winner res = None" by (rule p9)
    show "leads_alone vs' c \<Longrightarrow> winner res = Some c" by (rule p10)
    show "votes vs' \<noteq> [] \<and> (\<forall>c. \<not> leads_alone vs' c) \<Longrightarrow> 2 \<le> length ws"
      using p11 by blast
    show "votes vs' \<noteq> [] \<and> (\<forall>c. \<not> leads_alone vs' c) \<Longrightarrow>
        winner res = Some (''TIE: '' @ join '', '' ws)"
      using p11 by blast
  qed (fact p1 p2 p3 tv p5 ws p8)+
qed


theorem winner_from_latest_votes_witness:
  "is_active ex_voting \<and> distinct (map fst (votes ex_voting))
   \<and> map (\<lambda>p. (fst p, candidate (snd p))) (votes (cast_all ex_casts_win ex_voting)) =
       [(''Ann'', ''Cy''), (''Bob'', ''Cy'')]
   \<and> leads_alone (cast_all ex_casts_win ex_voting) ''Cy''
   \<and> winner (compute_results 20 (cast_all ex_casts_win ex_voting)) = Some ''Cy''
   \<and> votes (cast_all ex_casts_tie ex_voting) \<noteq> []
   \<and> (\<forall>c. \<not> leads_alone (cast_all ex_casts_tie ex_voting) c)
   \<and> winner (compute_results 20 (cast_all ex_casts_tie ex_voting)) = Some ''TIE: Bob, Cy, Ann''
   \<and> votes (cast_all [] ex_voting) = []
   \<and> winner (compute_results 20 (cast_all [] ex_voting)) = None"
proof -
  let ?W = "cast_all ex_casts_win ex_voting"
  let ?T = "cast_all ex_casts_tie ex_voting"
  have a1: "is_active ex_voting" and a2: "distinct (map fst (votes ex_voting))"
    by code_simp+
  have vw: "map (\<lambda>p. (fst p, candidate (snd p))) (votes ?W) = [(''Ann'', ''Cy''), (''Bob'', ''Cy'')]"
    by code_simp
  have cw: "map (\<lambda>p. candidate (snd p)) (votes ?W) = [''Cy'', ''Cy'']" by code_simp
  have ct: "map (\<lambda>p. candidate (snd p)) (votes ?T) = [''Bob'', ''Cy'', ''Ann'']" by code_simp
  have tw: "tally ?W c = (if c = ''Cy'' then 2 else 0)" for c
    unfolding tally_count cw by simp
  have tt: "tally ?T c = (if c = ''Bob'' \<or> c = ''Cy'' \<or> c = ''Ann'' then 1 else 0)" for c
    unfolding tally_count ct by simp
  have lw: "leads_alone ?W ''Cy''" by (simp add: leads_alone_def tw)
  have nt: "votes ?T \<noteq> []" using ct by auto
  have lt: "\<forall>c. \<not> leads_alone ?T c"
  proof
    fix c
    show "\<not> leads_alone ?T c"
    proof
      assume l: "leads_alone ?T c"
      then have "c = ''Bob'' \<or> c = ''Cy'' \<or> c = ''Ann''"
        by (simp add: leads_alone_def tt split: if_splits)
      moreover from l have "c \<noteq> ''Bob'' \<Longrightarrow> tally ?T ''Bob'' < tally ?T c"
        and "c \<noteq> ''Cy'' \<Longrightarrow> tally ?T ''Cy'' < tally ?T c"
        by (simp_all add: leads_alone_def)
      ultimately show False by (auto simp: tt)
    qed
  qed
  have ne: "votes (cast_all [] ex_voting) = []" by code_simp
  have w1: "winner (compute_results 20 ?W) = Some ''Cy''"
    using winner_from_latest_votes [OF a1 a2 refl refl refl, where cs = ex_casts_win
        and now = 20 and c = "''Cy''"] lw by blast
  have w2: "winner (compute_results 20 ?T) = Some ''TIE: Bob, Cy, Ann''" by code_simp
  have w3: "winner (compute_results 20 (cast_all [] ex_voting)) = None"
    using winner_from_latest_votes [OF a1 a2 refl refl refl, where cs = "[]" and now = 20] ne
    by blast
  from a1 a2 vw lw w1 nt lt w2 ne w3 show ?thesis by blast
qed

end
